theory Spec2Isabelle
  imports Main "HOL-Library.Word" "HOL-Library.Sublist"
begin

section \<open>Values, panics and the injected collaborators\<close>

text \<open>
  The program (src/main/main.go) is a pipeline of goroutines joined by unbuffered
  channels. Values of Go's \<open>int64\<close> are 64-bit words read with \<open>sint\<close>; a value of
  type \<open>interface{}\<close> is \<open>nil\<close>, an \<open>int64\<close>, or a value of some other dynamic type.
\<close>

type_synonym int64 = "64 word"

datatype val = NilValue | Int64 int64 | Other string

text \<open>
  A panic ends the whole process. An injected value source can panic by itself; the one
  of this program, \<open>rand.Int63n\<close>, does so on a non-positive bound. The statements of
  the pipeline can panic in the type assertion \<open>item.(int64)\<close>, in \<open>close\<close> of a closed
  channel, in a send on a closed channel and in \<open>wg.Done()\<close> on a counter that is zero.
\<close>

datatype source_panic = InvalidArgument | SourceFailure

datatype panic =
    ValueSource source_panic
  | TypeMismatch
  | CloseOfClosed
  | SendOnClosed
  | NegativeWaitGroup

text \<open>
  \<open>rand.Int63n\<close> belongs to Go's standard library (math/rand), not to the repository. Its
  documented behaviour: it panics if \<open>n <= 0\<close>, and otherwise returns \<open>v % n\<close> for a
  non-negative 63-bit pseudo-random \<open>v\<close>. The pseudo-random draw is the parameter \<open>raw\<close>, of
  which the low 63 bits are used.
\<close>

definition Int63n :: "int64 \<Rightarrow> int64 \<Rightarrow> source_panic + int64" where
  "Int63n raw n =
     (if sint n \<le> 0 then Inl InvalidArgument else Inr (take_bit 63 raw mod n))"

text \<open>
  \<open>randVal(num)\<close> (main.go, 155-159) returns the closure \<open>func() interface{} { return
  rand.Int63n(num) }\<close>. The closure is called with the draw of the generator behind it.
\<close>

definition randVal :: "int64 \<Rightarrow> int64 \<Rightarrow> source_panic + val" where
  "randVal num raw = (case Int63n raw num of Inl p \<Rightarrow> Inl p | Inr v \<Rightarrow> Inr (Int64 v))"

text \<open>
  \<open>big.NewInt(num).ProbablyPrime(0)\<close> is Go's standard library (math/big) too. It is
  documented to be exact for inputs below \<open>2^64\<close> and to reject zero and negative numbers, so
  on an \<open>int64\<close> it decides primality; \<open>is_prime\<close> is the independent check by trial division.
\<close>

definition is_prime :: "nat \<Rightarrow> bool" where
  "is_prime p = (2 \<le> p \<and> list_all (\<lambda>d. p mod d \<noteq> 0) [2..<p])"

definition ProbablyPrime0 :: "int64 \<Rightarrow> bool" where
  "ProbablyPrime0 num = (0 < sint num \<and> is_prime (nat (sint num)))"

text \<open>The constants of main.go, 12-16: the defaults of the flags p, r and n.\<close>

definition DEFAULT_NUM_PRIMES :: int where "DEFAULT_NUM_PRIMES = 10"
definition DEFAULT_NUM_RANGE :: int where "DEFAULT_NUM_RANGE = 100000"
definition DEFAULT_NUM_WORKERS :: int where "DEFAULT_NUM_WORKERS = 8"

text \<open>
  What \<open>main\<close> passes down. \<open>getValue k\<close> is the result of the k-th call (counted from 0) of
  the injected value source, \<open>accept\<close> the test the workers apply, \<open>numWorkers\<close> the length of
  the slice of worker channels and \<open>numPrimes\<close> the \<open>num\<close> of \<open>createResultStream\<close> (a Go
  \<open>int\<close>, possibly negative).
\<close>

record config =
  getValue :: "nat \<Rightarrow> source_panic + val"
  accept :: "int64 \<Rightarrow> bool"
  numWorkers :: nat
  numPrimes :: int

definition main_config :: "(nat \<Rightarrow> int64) \<Rightarrow> int \<Rightarrow> int64 \<Rightarrow> nat \<Rightarrow> config" where
  "main_config draws p r n =
     \<lparr>getValue = (\<lambda>k. randVal r (draws k)), accept = ProbablyPrime0,
      numWorkers = n, numPrimes = p\<rparr>"


section \<open>The goroutines\<close>

text \<open>
  Each goroutine is a control point with the values it holds there.

  \<^item> \<open>createValueStream\<close> (123-136): at the head of its \<open>for\<close> it enters the \<open>select\<close>, and
    entering a \<open>select\<close> evaluates the operand of the send case, \<open>getValue()\<close>, first; then
    it waits in the \<open>select\<close> holding that value.
  \<^item> \<open>valuesToIntStream\<close> (139-152): waits in \<open>range vals\<close>, or in its \<open>select\<close> holding
    \<open>item.(int64)\<close>.
  \<^item> \<open>primeNumberWorker\<close> (104-120): waits in \<open>range intStream\<close>, or in its \<open>select\<close> holding
    an accepted number.
  \<^item> \<open>reduceChan\<close> (79-88): waits in \<open>range workerChannel\<close>, or in its \<open>select\<close> holding an item.
  \<^item> the closer of \<open>reduceWorkers\<close> (95-98): waits in \<open>wg.Wait()\<close>.
  \<^item> \<open>createResultStream\<close> (58-71): at the loop test with counter \<open>i\<close>; in the receive
    \<open><-valueStream\<close>, the operand of the send case, which is evaluated on entering the
    \<open>select\<close>; or in the \<open>select\<close> holding the received value.
  \<^item> \<open>main\<close> (50-55): in \<open>range primeNumberStream\<close>, or returned.
\<close>

datatype gen_pc = GenLoop | GenSelect val | GenReturned
datatype proj_pc = ProjRange | ProjSelect int64 | ProjReturned
datatype worker_pc = WorkerRange | WorkerSelect int64 | WorkerReturned
datatype fwd_pc = FwdRange | FwdSelect val | FwdReturned
datatype closer_pc = CloserWait | CloserReturned
datatype cons_pc = ConsLoop int | ConsRecv int | ConsSelect int val | ConsReturned
datatype main_pc = MainRange | MainReturned

text \<open>
  The state of the process: the control points, which channels are closed, the counter of
  the wait group, the panic that ended the process if any, and the history of what
  happened on the channels (what was sent, what each worker read, how often the value
  source was called, how often \<open>done\<close> and the merged stream were closed).
\<close>

record state =
  gen_pc :: gen_pc
  proj_pc :: proj_pc
  worker_pc :: "worker_pc list"
  fwd_pc :: "fwd_pc list"
  closer_pc :: closer_pc
  cons_pc :: cons_pc
  main_pc :: main_pc
  done_closed :: bool
  valStream_closed :: bool
  intStream_closed :: bool
  primeNumStream_closed :: "bool list"
  reducedStream_closed :: bool
  result_closed :: bool
  wg :: int
  panicked :: "panic option"
  calls :: nat
  valStream_sent :: "val list"
  intStream_sent :: "int64 list"
  worker_read :: "int64 list list"
  primeNumStream_sent :: "int64 list list"
  reducedStream_sent :: "val list"
  result_sent :: "val list"
  done_closes :: nat
  reducedStream_closes :: nat

text \<open>
  The state when \<open>main\<close> reaches its \<open>range\<close> (line 50): every goroutine has been started,
  \<open>wg.Add(len(channels))\<close> has run, nothing is closed. \<open>numWorkers\<close> is a natural number: a
  negative flag \<open>n\<close> makes \<open>make\<close> panic at line 40, before any stage exists.
\<close>

definition init :: "config \<Rightarrow> state" where
  "init c =
     \<lparr>gen_pc = GenLoop, proj_pc = ProjRange,
      worker_pc = replicate (numWorkers c) WorkerRange,
      fwd_pc = replicate (numWorkers c) FwdRange,
      closer_pc = CloserWait, cons_pc = ConsLoop 0, main_pc = MainRange,
      done_closed = False, valStream_closed = False, intStream_closed = False,
      primeNumStream_closed = replicate (numWorkers c) False,
      reducedStream_closed = False, result_closed = False,
      wg = int (numWorkers c), panicked = None, calls = 0,
      valStream_sent = [], intStream_sent = [],
      worker_read = replicate (numWorkers c) [],
      primeNumStream_sent = replicate (numWorkers c) [],
      reducedStream_sent = [], result_sent = [],
      done_closes = 0, reducedStream_closes = 0\<rparr>"


section \<open>The steps\<close>

text \<open>
  A step is one statement of one goroutine, or one hand-over on an unbuffered channel,
  which moves the sender and the receiver together. Which step happens next is the
  scheduler's and the \<open>select\<close>'s choice: where \<open>done\<close> is closed and a receiver is waiting,
  both cases of a \<open>select\<close> are possible steps.

  \<^item> \<open>GenCall\<close>, \<open>GenSend\<close>, \<open>GenDone\<close>: the generator calls the source; hands its value to the
    projection; takes the \<open>done\<close> case.
  \<^item> \<open>ProjEnd\<close>, \<open>ProjSend i\<close>, \<open>ProjDone\<close>: the projection finds its input closed; hands its
    number to worker \<open>i\<close>; takes the \<open>done\<close> case.
  \<^item> \<open>WorkerEnd i\<close>, \<open>WorkerSend i\<close>, \<open>WorkerDone i\<close>: worker \<open>i\<close> finds its input closed; hands
    its number to its forwarder; takes the \<open>done\<close> case.
  \<^item> \<open>FwdEnd i\<close>, \<open>FwdSend i\<close>, \<open>FwdDone i\<close>: forwarder \<open>i\<close> finds its input closed; hands its
    item to the consumer; takes the \<open>done\<close> case.
  \<^item> \<open>CloserClose\<close>: the wait is over and the merged stream is closed.
  \<^item> \<open>ConsTest\<close>, \<open>ConsRecvClosed\<close>, \<open>ConsSend\<close>, \<open>ConsDone\<close>: the consumer tests its counter;
    receives from the closed merged stream; hands its item to \<open>main\<close>; takes the \<open>done\<close> case.
  \<^item> \<open>MainReturn\<close>: \<open>main\<close> finds the result stream closed and returns.
\<close>

datatype action =
    GenCall
  | GenSend
  | GenDone
  | ProjEnd
  | ProjSend nat
  | ProjDone
  | WorkerEnd nat
  | WorkerSend nat
  | WorkerDone nat
  | FwdEnd nat
  | FwdSend nat
  | FwdDone nat
  | CloserClose
  | ConsTest
  | ConsRecvClosed
  | ConsSend
  | ConsDone
  | MainReturn

text \<open>
  A statement panics: the process ends in the state it was in. The deferred calls of the
  panicking goroutine run while the runtime takes the process down; they, and whatever
  another goroutine might still do in that moment, are not followed.
\<close>

definition die :: "panic \<Rightarrow> state \<Rightarrow> state option" where
  "die p s = Some (s\<lparr>panicked := Some p\<rparr>)"

subsection \<open>createValueStream\<close>

text \<open>Line 131, on entering the \<open>select\<close>: \<open>getValue()\<close> is called.\<close>

definition gen_call :: "config \<Rightarrow> state \<Rightarrow> state option" where
  "gen_call c s =
     (case gen_pc s of
        GenLoop \<Rightarrow>
          (case getValue c (calls s) of
             Inl p \<Rightarrow> die (ValueSource p) (s\<lparr>calls := Suc (calls s)\<rparr>)
           | Inr v \<Rightarrow> Some (s\<lparr>gen_pc := GenSelect v, calls := Suc (calls s)\<rparr>))
      | _ \<Rightarrow> None)"

text \<open>
  Line 131, the send case: \<open>valuesToIntStream\<close>, waiting in \<open>range vals\<close>, takes the value
  and enters its own \<open>select\<close>, which evaluates \<open>item.(int64)\<close> (line 147). The assertion
  panics on \<open>nil\<close> and on a value of any other type; the panic is not recovered anywhere,
  so the process ends.
\<close>

definition gen_send :: "state \<Rightarrow> state option" where
  "gen_send s =
     (case gen_pc s of
        GenSelect v \<Rightarrow>
          if valStream_closed s then die SendOnClosed s
          else if proj_pc s = ProjRange then
            (case v of
               Int64 n \<Rightarrow>
                 Some (s\<lparr>gen_pc := GenLoop, proj_pc := ProjSelect n,
                         valStream_sent := valStream_sent s @ [v]\<rparr>)
             | _ \<Rightarrow>
                 die TypeMismatch
                   (s\<lparr>gen_pc := GenLoop, valStream_sent := valStream_sent s @ [v]\<rparr>))
          else None
      | _ \<Rightarrow> None)"

text \<open>Lines 129-130 and 126: the \<open>done\<close> case returns, and the deferred \<open>close(valStream)\<close> runs.\<close>

definition gen_done :: "state \<Rightarrow> state option" where
  "gen_done s =
     (case gen_pc s of
        GenSelect v \<Rightarrow>
          if done_closed s then
            (if valStream_closed s then die CloseOfClosed s
             else Some (s\<lparr>gen_pc := GenReturned, valStream_closed := True\<rparr>))
          else None
      | _ \<Rightarrow> None)"

subsection \<open>valuesToIntStream\<close>

text \<open>Line 143: \<open>range vals\<close> ends when \<open>vals\<close> is closed; then \<open>close(intStream)\<close>.\<close>

definition proj_end :: "state \<Rightarrow> state option" where
  "proj_end s =
     (if proj_pc s = ProjRange \<and> valStream_closed s then
        (if intStream_closed s then die CloseOfClosed s
         else Some (s\<lparr>proj_pc := ProjReturned, intStream_closed := True\<rparr>))
      else None)"

text \<open>
  Line 147, the send case: worker \<open>i\<close>, waiting in \<open>range intStream\<close>, takes the number and
  tests it (line 110); an accepted number takes the worker into its \<open>select\<close>.
\<close>

definition proj_send :: "config \<Rightarrow> nat \<Rightarrow> state \<Rightarrow> state option" where
  "proj_send c i s =
     (case proj_pc s of
        ProjSelect n \<Rightarrow>
          if intStream_closed s then die SendOnClosed s
          else if i < length (worker_pc s) \<and> worker_pc s ! i = WorkerRange then
            Some (s\<lparr>proj_pc := ProjRange,
                    intStream_sent := intStream_sent s @ [n],
                    worker_read := (worker_read s)[i := worker_read s ! i @ [n]],
                    worker_pc := (worker_pc s)
                      [i := if accept c n then WorkerSelect n else WorkerRange]\<rparr>)
          else None
      | _ \<Rightarrow> None)"

text \<open>Lines 145-146 and 142: the \<open>done\<close> case returns; then \<open>close(intStream)\<close>.\<close>

definition proj_done :: "state \<Rightarrow> state option" where
  "proj_done s =
     (case proj_pc s of
        ProjSelect n \<Rightarrow>
          if done_closed s then
            (if intStream_closed s then die CloseOfClosed s
             else Some (s\<lparr>proj_pc := ProjReturned, intStream_closed := True\<rparr>))
          else None
      | _ \<Rightarrow> None)"

subsection \<open>primeNumberWorker\<close>

text \<open>Line 107: the deferred \<open>close(primeNumStream)\<close> of worker \<open>i\<close>.\<close>

definition worker_return :: "nat \<Rightarrow> state \<Rightarrow> state option" where
  "worker_return i s =
     (if primeNumStream_closed s ! i then die CloseOfClosed s
      else Some (s\<lparr>worker_pc := (worker_pc s)[i := WorkerReturned],
                   primeNumStream_closed := (primeNumStream_closed s)[i := True]\<rparr>))"

text \<open>Line 108: \<open>range intStream\<close> ends when \<open>intStream\<close> is closed.\<close>

definition worker_end :: "nat \<Rightarrow> state \<Rightarrow> state option" where
  "worker_end i s =
     (if i < length (worker_pc s) \<and> worker_pc s ! i = WorkerRange \<and> intStream_closed s
      then worker_return i s else None)"

text \<open>Line 114, the send case: the forwarder of this worker's channel takes the number.\<close>

definition worker_send :: "nat \<Rightarrow> state \<Rightarrow> state option" where
  "worker_send i s =
     (if i < length (worker_pc s) then
        (case worker_pc s ! i of
           WorkerSelect n \<Rightarrow>
             if primeNumStream_closed s ! i then die SendOnClosed s
             else if fwd_pc s ! i = FwdRange then
               Some (s\<lparr>worker_pc := (worker_pc s)[i := WorkerRange],
                       primeNumStream_sent :=
                         (primeNumStream_sent s)[i := primeNumStream_sent s ! i @ [n]],
                       fwd_pc := (fwd_pc s)[i := FwdSelect (Int64 n)]\<rparr>)
             else None
         | _ \<Rightarrow> None)
      else None)"

text \<open>Lines 112-113: the \<open>done\<close> case returns; the number the worker holds is not sent.\<close>

definition worker_done :: "nat \<Rightarrow> state \<Rightarrow> state option" where
  "worker_done i s =
     (if i < length (worker_pc s) then
        (case worker_pc s ! i of
           WorkerSelect n \<Rightarrow> if done_closed s then worker_return i s else None
         | _ \<Rightarrow> None)
      else None)"

subsection \<open>reduceWorkers\<close>

text \<open>Line 80: the deferred \<open>wg.Done()\<close> of a forwarder.\<close>

definition fwd_return :: "nat \<Rightarrow> state \<Rightarrow> state option" where
  "fwd_return i s =
     (if wg s - 1 < 0 then die NegativeWaitGroup s
      else Some (s\<lparr>fwd_pc := (fwd_pc s)[i := FwdReturned], wg := wg s - 1\<rparr>))"

text \<open>Line 81: \<open>range workerChannel\<close> ends when the worker's channel is closed.\<close>

definition fwd_end :: "nat \<Rightarrow> state \<Rightarrow> state option" where
  "fwd_end i s =
     (if i < length (fwd_pc s) \<and> fwd_pc s ! i = FwdRange \<and> primeNumStream_closed s ! i
      then fwd_return i s else None)"

text \<open>
  Line 85, the send case: \<open>createResultStream\<close>, waiting in \<open><-valueStream\<close>, takes the item
  and goes on into its \<open>select\<close>.
\<close>

definition fwd_send :: "nat \<Rightarrow> state \<Rightarrow> state option" where
  "fwd_send i s =
     (if i < length (fwd_pc s) then
        (case fwd_pc s ! i of
           FwdSelect v \<Rightarrow>
             if reducedStream_closed s then die SendOnClosed s
             else (case cons_pc s of
                     ConsRecv k \<Rightarrow>
                       Some (s\<lparr>fwd_pc := (fwd_pc s)[i := FwdRange],
                               reducedStream_sent := reducedStream_sent s @ [v],
                               cons_pc := ConsSelect k v\<rparr>)
                   | _ \<Rightarrow> None)
         | _ \<Rightarrow> None)
      else None)"

text \<open>Lines 83-84: the \<open>done\<close> case returns; the item the forwarder holds is not sent.\<close>

definition fwd_done :: "nat \<Rightarrow> state \<Rightarrow> state option" where
  "fwd_done i s =
     (if i < length (fwd_pc s) then
        (case fwd_pc s ! i of
           FwdSelect v \<Rightarrow> if done_closed s then fwd_return i s else None
         | _ \<Rightarrow> None)
      else None)"

text \<open>Lines 96-97: \<open>wg.Wait()\<close> returns when the counter is zero; then \<open>close(reducedStream)\<close>.\<close>

definition closer_close :: "state \<Rightarrow> state option" where
  "closer_close s =
     (if closer_pc s = CloserWait \<and> wg s = 0 then
        (if reducedStream_closed s
         then die CloseOfClosed (s\<lparr>reducedStream_closes := Suc (reducedStream_closes s)\<rparr>)
         else Some (s\<lparr>closer_pc := CloserReturned, reducedStream_closed := True,
                      reducedStream_closes := Suc (reducedStream_closes s)\<rparr>))
      else None)"

subsection \<open>createResultStream\<close>

text \<open>Line 61: the deferred \<open>close(result)\<close>.\<close>

definition cons_return :: "state \<Rightarrow> state option" where
  "cons_return s =
     (if result_closed s then die CloseOfClosed s
      else Some (s\<lparr>cons_pc := ConsReturned, result_closed := True\<rparr>))"

text \<open>
  Line 62: the test \<open>i < num\<close>. When it holds the \<open>select\<close> is entered, which starts with the
  receive \<open><-valueStream\<close>; when it fails the goroutine returns and \<open>close(result)\<close> runs.
\<close>

definition cons_test :: "config \<Rightarrow> state \<Rightarrow> state option" where
  "cons_test c s =
     (case cons_pc s of
        ConsLoop i \<Rightarrow>
          if i < numPrimes c then Some (s\<lparr>cons_pc := ConsRecv i\<rparr>) else cons_return s
      | _ \<Rightarrow> None)"

text \<open>Line 66: a receive from a closed channel returns the zero value, \<open>nil\<close>, at once.\<close>

definition cons_recv_closed :: "state \<Rightarrow> state option" where
  "cons_recv_closed s =
     (case cons_pc s of
        ConsRecv i \<Rightarrow>
          if reducedStream_closed s then Some (s\<lparr>cons_pc := ConsSelect i NilValue\<rparr>) else None
      | _ \<Rightarrow> None)"

text \<open>Line 66, the send case: \<open>main\<close>, waiting in its \<open>range\<close>, takes the value; \<open>i++\<close>.\<close>

definition cons_send :: "state \<Rightarrow> state option" where
  "cons_send s =
     (case cons_pc s of
        ConsSelect i v \<Rightarrow>
          if result_closed s then die SendOnClosed s
          else if main_pc s = MainRange then
            Some (s\<lparr>cons_pc := ConsLoop (i + 1), result_sent := result_sent s @ [v]\<rparr>)
          else None
      | _ \<Rightarrow> None)"

text \<open>Lines 64-65: the \<open>done\<close> case returns; the item the consumer holds is not sent.\<close>

definition cons_done :: "state \<Rightarrow> state option" where
  "cons_done s =
     (case cons_pc s of
        ConsSelect i v \<Rightarrow> if done_closed s then cons_return s else None
      | _ \<Rightarrow> None)"

subsection \<open>main\<close>

text \<open>
  Lines 50-55 and 32: the \<open>range\<close> ends when the result stream is closed, \<open>main\<close> returns and
  the deferred \<open>close(done)\<close> runs. The stages are followed beyond that point; that the
  Go runtime ends the process once \<open>main\<close> has returned is not part of the model.
\<close>

definition main_return :: "state \<Rightarrow> state option" where
  "main_return s =
     (if main_pc s = MainRange \<and> result_closed s then
        (if done_closed s then die CloseOfClosed (s\<lparr>done_closes := Suc (done_closes s)\<rparr>)
         else Some (s\<lparr>main_pc := MainReturned, done_closed := True,
                      done_closes := Suc (done_closes s)\<rparr>))
      else None)"

subsection \<open>The process\<close>

text \<open>No step is possible after a panic: the process is gone.\<close>

definition step :: "config \<Rightarrow> action \<Rightarrow> state \<Rightarrow> state option" where
  "step c a s =
     (if panicked s \<noteq> None then None
      else case a of
          GenCall \<Rightarrow> gen_call c s
        | GenSend \<Rightarrow> gen_send s
        | GenDone \<Rightarrow> gen_done s
        | ProjEnd \<Rightarrow> proj_end s
        | ProjSend i \<Rightarrow> proj_send c i s
        | ProjDone \<Rightarrow> proj_done s
        | WorkerEnd i \<Rightarrow> worker_end i s
        | WorkerSend i \<Rightarrow> worker_send i s
        | WorkerDone i \<Rightarrow> worker_done i s
        | FwdEnd i \<Rightarrow> fwd_end i s
        | FwdSend i \<Rightarrow> fwd_send i s
        | FwdDone i \<Rightarrow> fwd_done i s
        | CloserClose \<Rightarrow> closer_close s
        | ConsTest \<Rightarrow> cons_test c s
        | ConsRecvClosed \<Rightarrow> cons_recv_closed s
        | ConsSend \<Rightarrow> cons_send s
        | ConsDone \<Rightarrow> cons_done s
        | MainReturn \<Rightarrow> main_return s)"

text \<open>A schedule is a list of steps; it runs as long as each step is possible.\<close>

fun exec :: "config \<Rightarrow> action list \<Rightarrow> state \<Rightarrow> state option" where
  "exec c [] s = Some s"
| "exec c (a # as) s = (case step c a s of None \<Rightarrow> None | Some s' \<Rightarrow> exec c as s')"

section \<open>The steps as a relation\<close>

text \<open>
  The same steps, one rule for each branch of each statement. The relation is what the
  proofs of the invariants take apart; \<open>step_transition\<close> and \<open>transition_step\<close> below show
  that it is the step function of a process that has not panicked.
\<close>

inductive transition :: "config \<Rightarrow> state \<Rightarrow> action \<Rightarrow> state \<Rightarrow> bool" for c s where
  gen_call_panic:
    "gen_pc s = GenLoop \<Longrightarrow> getValue c (calls s) = Inl p \<Longrightarrow>
     transition c s GenCall
       (s\<lparr>calls := Suc (calls s), panicked := Some (ValueSource p)\<rparr>)"
| gen_call:
    "gen_pc s = GenLoop \<Longrightarrow> getValue c (calls s) = Inr v \<Longrightarrow>
     transition c s GenCall (s\<lparr>gen_pc := GenSelect v, calls := Suc (calls s)\<rparr>)"
| gen_send_closed:
    "gen_pc s = GenSelect v \<Longrightarrow> valStream_closed s \<Longrightarrow>
     transition c s GenSend (s\<lparr>panicked := Some SendOnClosed\<rparr>)"
| gen_send:
    "gen_pc s = GenSelect (Int64 n) \<Longrightarrow> \<not> valStream_closed s \<Longrightarrow> proj_pc s = ProjRange \<Longrightarrow>
     transition c s GenSend
       (s\<lparr>gen_pc := GenLoop, proj_pc := ProjSelect n,
           valStream_sent := valStream_sent s @ [Int64 n]\<rparr>)"
| gen_send_mismatch:
    "gen_pc s = GenSelect v \<Longrightarrow> \<not> valStream_closed s \<Longrightarrow> proj_pc s = ProjRange \<Longrightarrow>
     \<forall>n. v \<noteq> Int64 n \<Longrightarrow>
     transition c s GenSend
       (s\<lparr>gen_pc := GenLoop, valStream_sent := valStream_sent s @ [v],
           panicked := Some TypeMismatch\<rparr>)"
| gen_done_closed:
    "gen_pc s = GenSelect v \<Longrightarrow> done_closed s \<Longrightarrow> valStream_closed s \<Longrightarrow>
     transition c s GenDone (s\<lparr>panicked := Some CloseOfClosed\<rparr>)"
| gen_done:
    "gen_pc s = GenSelect v \<Longrightarrow> done_closed s \<Longrightarrow> \<not> valStream_closed s \<Longrightarrow>
     transition c s GenDone (s\<lparr>gen_pc := GenReturned, valStream_closed := True\<rparr>)"
| proj_end_closed:
    "proj_pc s = ProjRange \<Longrightarrow> valStream_closed s \<Longrightarrow> intStream_closed s \<Longrightarrow>
     transition c s ProjEnd (s\<lparr>panicked := Some CloseOfClosed\<rparr>)"
| proj_end:
    "proj_pc s = ProjRange \<Longrightarrow> valStream_closed s \<Longrightarrow> \<not> intStream_closed s \<Longrightarrow>
     transition c s ProjEnd (s\<lparr>proj_pc := ProjReturned, intStream_closed := True\<rparr>)"
| proj_send_closed:
    "proj_pc s = ProjSelect n \<Longrightarrow> intStream_closed s \<Longrightarrow>
     transition c s (ProjSend i) (s\<lparr>panicked := Some SendOnClosed\<rparr>)"
| proj_send_accept:
    "proj_pc s = ProjSelect n \<Longrightarrow> \<not> intStream_closed s \<Longrightarrow> i < length (worker_pc s) \<Longrightarrow>
     worker_pc s ! i = WorkerRange \<Longrightarrow> accept c n \<Longrightarrow>
     transition c s (ProjSend i)
       (s\<lparr>proj_pc := ProjRange,
           intStream_sent := intStream_sent s @ [n],
           worker_read := (worker_read s)[i := worker_read s ! i @ [n]],
           worker_pc := (worker_pc s)[i := WorkerSelect n]\<rparr>)"
| proj_send_reject:
    "proj_pc s = ProjSelect n \<Longrightarrow> \<not> intStream_closed s \<Longrightarrow> i < length (worker_pc s) \<Longrightarrow>
     worker_pc s ! i = WorkerRange \<Longrightarrow> \<not> accept c n \<Longrightarrow>
     transition c s (ProjSend i)
       (s\<lparr>proj_pc := ProjRange,
           intStream_sent := intStream_sent s @ [n],
           worker_read := (worker_read s)[i := worker_read s ! i @ [n]],
           worker_pc := (worker_pc s)[i := WorkerRange]\<rparr>)"
| proj_done_closed:
    "proj_pc s = ProjSelect n \<Longrightarrow> done_closed s \<Longrightarrow> intStream_closed s \<Longrightarrow>
     transition c s ProjDone (s\<lparr>panicked := Some CloseOfClosed\<rparr>)"
| proj_done:
    "proj_pc s = ProjSelect n \<Longrightarrow> done_closed s \<Longrightarrow> \<not> intStream_closed s \<Longrightarrow>
     transition c s ProjDone (s\<lparr>proj_pc := ProjReturned, intStream_closed := True\<rparr>)"
| worker_end_closed:
    "i < length (worker_pc s) \<Longrightarrow> worker_pc s ! i = WorkerRange \<Longrightarrow> intStream_closed s \<Longrightarrow>
     primeNumStream_closed s ! i \<Longrightarrow>
     transition c s (WorkerEnd i) (s\<lparr>panicked := Some CloseOfClosed\<rparr>)"
| worker_end:
    "i < length (worker_pc s) \<Longrightarrow> worker_pc s ! i = WorkerRange \<Longrightarrow> intStream_closed s \<Longrightarrow>
     \<not> primeNumStream_closed s ! i \<Longrightarrow>
     transition c s (WorkerEnd i)
       (s\<lparr>worker_pc := (worker_pc s)[i := WorkerReturned],
           primeNumStream_closed := (primeNumStream_closed s)[i := True]\<rparr>)"
| worker_send_closed:
    "i < length (worker_pc s) \<Longrightarrow> worker_pc s ! i = WorkerSelect n \<Longrightarrow>
     primeNumStream_closed s ! i \<Longrightarrow>
     transition c s (WorkerSend i) (s\<lparr>panicked := Some SendOnClosed\<rparr>)"
| worker_send:
    "i < length (worker_pc s) \<Longrightarrow> worker_pc s ! i = WorkerSelect n \<Longrightarrow>
     \<not> primeNumStream_closed s ! i \<Longrightarrow> fwd_pc s ! i = FwdRange \<Longrightarrow>
     transition c s (WorkerSend i)
       (s\<lparr>worker_pc := (worker_pc s)[i := WorkerRange],
           primeNumStream_sent :=
             (primeNumStream_sent s)[i := primeNumStream_sent s ! i @ [n]],
           fwd_pc := (fwd_pc s)[i := FwdSelect (Int64 n)]\<rparr>)"
| worker_done_closed:
    "i < length (worker_pc s) \<Longrightarrow> worker_pc s ! i = WorkerSelect n \<Longrightarrow> done_closed s \<Longrightarrow>
     primeNumStream_closed s ! i \<Longrightarrow>
     transition c s (WorkerDone i) (s\<lparr>panicked := Some CloseOfClosed\<rparr>)"
| worker_done:
    "i < length (worker_pc s) \<Longrightarrow> worker_pc s ! i = WorkerSelect n \<Longrightarrow> done_closed s \<Longrightarrow>
     \<not> primeNumStream_closed s ! i \<Longrightarrow>
     transition c s (WorkerDone i)
       (s\<lparr>worker_pc := (worker_pc s)[i := WorkerReturned],
           primeNumStream_closed := (primeNumStream_closed s)[i := True]\<rparr>)"
| fwd_end_negative:
    "i < length (fwd_pc s) \<Longrightarrow> fwd_pc s ! i = FwdRange \<Longrightarrow> primeNumStream_closed s ! i \<Longrightarrow>
     wg s - 1 < 0 \<Longrightarrow>
     transition c s (FwdEnd i) (s\<lparr>panicked := Some NegativeWaitGroup\<rparr>)"
| fwd_end:
    "i < length (fwd_pc s) \<Longrightarrow> fwd_pc s ! i = FwdRange \<Longrightarrow> primeNumStream_closed s ! i \<Longrightarrow>
     \<not> wg s - 1 < 0 \<Longrightarrow>
     transition c s (FwdEnd i) (s\<lparr>fwd_pc := (fwd_pc s)[i := FwdReturned], wg := wg s - 1\<rparr>)"
| fwd_send_closed:
    "i < length (fwd_pc s) \<Longrightarrow> fwd_pc s ! i = FwdSelect v \<Longrightarrow> reducedStream_closed s \<Longrightarrow>
     transition c s (FwdSend i) (s\<lparr>panicked := Some SendOnClosed\<rparr>)"
| fwd_send:
    "i < length (fwd_pc s) \<Longrightarrow> fwd_pc s ! i = FwdSelect v \<Longrightarrow> \<not> reducedStream_closed s \<Longrightarrow>
     cons_pc s = ConsRecv k \<Longrightarrow>
     transition c s (FwdSend i)
       (s\<lparr>fwd_pc := (fwd_pc s)[i := FwdRange],
           reducedStream_sent := reducedStream_sent s @ [v],
           cons_pc := ConsSelect k v\<rparr>)"
| fwd_done_negative:
    "i < length (fwd_pc s) \<Longrightarrow> fwd_pc s ! i = FwdSelect v \<Longrightarrow> done_closed s \<Longrightarrow>
     wg s - 1 < 0 \<Longrightarrow>
     transition c s (FwdDone i) (s\<lparr>panicked := Some NegativeWaitGroup\<rparr>)"
| fwd_done:
    "i < length (fwd_pc s) \<Longrightarrow> fwd_pc s ! i = FwdSelect v \<Longrightarrow> done_closed s \<Longrightarrow>
     \<not> wg s - 1 < 0 \<Longrightarrow>
     transition c s (FwdDone i) (s\<lparr>fwd_pc := (fwd_pc s)[i := FwdReturned], wg := wg s - 1\<rparr>)"
| closer_close_closed:
    "closer_pc s = CloserWait \<Longrightarrow> wg s = 0 \<Longrightarrow> reducedStream_closed s \<Longrightarrow>
     transition c s CloserClose
       (s\<lparr>reducedStream_closes := Suc (reducedStream_closes s),
           panicked := Some CloseOfClosed\<rparr>)"
| closer_close:
    "closer_pc s = CloserWait \<Longrightarrow> wg s = 0 \<Longrightarrow> \<not> reducedStream_closed s \<Longrightarrow>
     transition c s CloserClose
       (s\<lparr>closer_pc := CloserReturned, reducedStream_closed := True,
           reducedStream_closes := Suc (reducedStream_closes s)\<rparr>)"
| cons_test_enter:
    "cons_pc s = ConsLoop k \<Longrightarrow> k < numPrimes c \<Longrightarrow>
     transition c s ConsTest (s\<lparr>cons_pc := ConsRecv k\<rparr>)"
| cons_test_closed:
    "cons_pc s = ConsLoop k \<Longrightarrow> \<not> k < numPrimes c \<Longrightarrow> result_closed s \<Longrightarrow>
     transition c s ConsTest (s\<lparr>panicked := Some CloseOfClosed\<rparr>)"
| cons_test_leave:
    "cons_pc s = ConsLoop k \<Longrightarrow> \<not> k < numPrimes c \<Longrightarrow> \<not> result_closed s \<Longrightarrow>
     transition c s ConsTest (s\<lparr>cons_pc := ConsReturned, result_closed := True\<rparr>)"
| cons_recv_closed:
    "cons_pc s = ConsRecv k \<Longrightarrow> reducedStream_closed s \<Longrightarrow>
     transition c s ConsRecvClosed (s\<lparr>cons_pc := ConsSelect k NilValue\<rparr>)"
| cons_send_closed:
    "cons_pc s = ConsSelect k v \<Longrightarrow> result_closed s \<Longrightarrow>
     transition c s ConsSend (s\<lparr>panicked := Some SendOnClosed\<rparr>)"
| cons_send:
    "cons_pc s = ConsSelect k v \<Longrightarrow> \<not> result_closed s \<Longrightarrow> main_pc s = MainRange \<Longrightarrow>
     transition c s ConsSend
       (s\<lparr>cons_pc := ConsLoop (k + 1), result_sent := result_sent s @ [v]\<rparr>)"
| cons_done_closed:
    "cons_pc s = ConsSelect k v \<Longrightarrow> done_closed s \<Longrightarrow> result_closed s \<Longrightarrow>
     transition c s ConsDone (s\<lparr>panicked := Some CloseOfClosed\<rparr>)"
| cons_done:
    "cons_pc s = ConsSelect k v \<Longrightarrow> done_closed s \<Longrightarrow> \<not> result_closed s \<Longrightarrow>
     transition c s ConsDone (s\<lparr>cons_pc := ConsReturned, result_closed := True\<rparr>)"
| main_return_closed:
    "main_pc s = MainRange \<Longrightarrow> result_closed s \<Longrightarrow> done_closed s \<Longrightarrow>
     transition c s MainReturn
       (s\<lparr>done_closes := Suc (done_closes s), panicked := Some CloseOfClosed\<rparr>)"
| main_return:
    "main_pc s = MainRange \<Longrightarrow> result_closed s \<Longrightarrow> \<not> done_closed s \<Longrightarrow>
     transition c s MainReturn
       (s\<lparr>main_pc := MainReturned, done_closed := True,
           done_closes := Suc (done_closes s)\<rparr>)"


section \<open>Invariants\<close>

text \<open>
  The properties below hold in every state a schedule can reach from \<open>init\<close>. Each is stated
  over the control point of one stage and the histories of the channels next to it.
\<close>

subsection \<open>Channels and their owners\<close>

text \<open>The number of forwarders that have not returned: what the wait group counts.\<close>

definition live_fwds :: "fwd_pc list \<Rightarrow> nat" where
  "live_fwds ps = length (filter (\<lambda>p. p \<noteq> FwdReturned) ps)"

text \<open>
  There is one control point, one output channel and one history for each of the
  \<open>numWorkers\<close> workers and forwarders. A channel is closed exactly when the goroutine that
  owns it has returned. The wait group counts the forwarders that have not returned.
  \<open>main\<close> returns only after the consumer has. \<open>done\<close> and the merged stream have been
  closed once if they are closed and never otherwise, and no statement has hit a closed
  channel or a wait group at zero.
\<close>

definition well_formed :: "config \<Rightarrow> state \<Rightarrow> bool" where
  "well_formed c s \<longleftrightarrow>
     length (worker_pc s) = numWorkers c \<and>
     length (fwd_pc s) = numWorkers c \<and>
     length (worker_read s) = numWorkers c \<and>
     length (primeNumStream_sent s) = numWorkers c \<and>
     valStream_closed s = (gen_pc s = GenReturned) \<and>
     intStream_closed s = (proj_pc s = ProjReturned) \<and>
     primeNumStream_closed s = map (\<lambda>p. p = WorkerReturned) (worker_pc s) \<and>
     reducedStream_closed s = (closer_pc s = CloserReturned) \<and>
     result_closed s = (cons_pc s = ConsReturned) \<and>
     done_closed s = (main_pc s = MainReturned) \<and>
     wg s = int (live_fwds (fwd_pc s)) \<and>
     (closer_pc s = CloserReturned \<longrightarrow> live_fwds (fwd_pc s) = 0) \<and>
     (cons_pc s \<noteq> ConsReturned \<longrightarrow> main_pc s = MainRange) \<and>
     done_closes s = (if main_pc s = MainReturned then 1 else 0) \<and>
     reducedStream_closes s = (if closer_pc s = CloserReturned then 1 else 0) \<and>
     panicked s \<noteq> Some CloseOfClosed \<and>
     panicked s \<noteq> Some SendOnClosed \<and>
     panicked s \<noteq> Some NegativeWaitGroup"

text \<open>
  As long as \<open>main\<close> has not returned, \<open>done\<close> is open and no stage before the consumer has
  returned; with at least one worker the merged stream is then open too.
\<close>

definition alive :: "config \<Rightarrow> state \<Rightarrow> bool" where
  "alive c s \<longleftrightarrow>
     (main_pc s = MainRange \<longrightarrow>
        gen_pc s \<noteq> GenReturned \<and> proj_pc s \<noteq> ProjReturned \<and>
        WorkerReturned \<notin> set (worker_pc s) \<and> FwdReturned \<notin> set (fwd_pc s) \<and>
        (0 < numWorkers c \<longrightarrow> closer_pc s = CloserWait))"

subsection \<open>What each stage has passed on\<close>

text \<open>
  The consumer: its counter \<open>i\<close> is the number of items it has sent; inside the loop
  \<open>i < num\<close>; after it has returned it has sent \<open>num\<close> items (none for a negative \<open>num\<close>).
\<close>

fun cons_counts :: "int \<Rightarrow> cons_pc \<Rightarrow> val list \<Rightarrow> bool" where
  "cons_counts num (ConsLoop k) out \<longleftrightarrow> k = int (length out) \<and> k \<le> max 0 num"
| "cons_counts num (ConsRecv k) out \<longleftrightarrow> k = int (length out) \<and> k < num"
| "cons_counts num (ConsSelect k v) out \<longleftrightarrow> k = int (length out) \<and> k < num"
| "cons_counts num ConsReturned out \<longleftrightarrow> int (length out) = max 0 num"

definition counted :: "config \<Rightarrow> state \<Rightarrow> bool" where
  "counted c s \<longleftrightarrow> cons_counts (numPrimes c) (cons_pc s) (result_sent s)"

text \<open>
  The generator: with \<open>n\<close> calls of the source and \<open>m\<close> items taken from the value stream,
  \<open>n = m\<close> at the head of the loop (after a panic the last call may have been the panic),
  and \<open>n = m + 1\<close> while it holds the result of call \<open>m\<close> and after it has returned. The
  items taken are the results of the calls \<open>0, ..., m - 1\<close>.
\<close>

fun gen_holds ::
  "(nat \<Rightarrow> source_panic + val) \<Rightarrow> gen_pc \<Rightarrow> panic option \<Rightarrow> nat \<Rightarrow> nat \<Rightarrow> bool" where
  "gen_holds src GenLoop pk n m \<longleftrightarrow> (if pk = None then n = m else n = m \<or> n = Suc m)"
| "gen_holds src (GenSelect v) pk n m \<longleftrightarrow> n = Suc m \<and> src m = Inr v"
| "gen_holds src GenReturned pk n m \<longleftrightarrow> n = Suc m"

definition generated :: "config \<Rightarrow> state \<Rightarrow> bool" where
  "generated c s \<longleftrightarrow>
     map Inr (valStream_sent s) = map (getValue c) [0..<length (valStream_sent s)] \<and>
     gen_holds (getValue c) (gen_pc s) (panicked s) (calls s) (length (valStream_sent s))"

text \<open>
  The projection: the \<open>int64\<close> values among the raw items it has taken are what it has sent
  on the typed stream, followed by the one it holds, if any; after it has returned the last
  one may be missing. Unless the type assertion has panicked, every raw item was an
  \<open>int64\<close>.
\<close>

fun int64s :: "val list \<Rightarrow> int64 list" where
  "int64s [] = []"
| "int64s (Int64 n # vs) = n # int64s vs"
| "int64s (v # vs) = int64s vs"

fun proj_holds :: "proj_pc \<Rightarrow> int64 list \<Rightarrow> int64 list \<Rightarrow> bool" where
  "proj_holds ProjRange rd out \<longleftrightarrow> rd = out"
| "proj_holds (ProjSelect n) rd out \<longleftrightarrow> rd = out @ [n]"
| "proj_holds ProjReturned rd out \<longleftrightarrow> rd = out \<or> (\<exists>n. rd = out @ [n])"

definition projected :: "state \<Rightarrow> bool" where
  "projected s \<longleftrightarrow>
     proj_holds (proj_pc s) (int64s (valStream_sent s)) (intStream_sent s) \<and>
     (panicked s \<noteq> Some TypeMismatch \<longrightarrow>
        valStream_sent s = map Int64 (int64s (valStream_sent s)))"

text \<open>
  A worker: the accepted ones among the numbers it has read are what it has sent, followed
  by the one it holds, if any; after it has returned the last one may be missing. What it
  has read was sent on the typed stream.
\<close>

fun worker_holds ::
  "(int64 \<Rightarrow> bool) \<Rightarrow> worker_pc \<Rightarrow> int64 list \<Rightarrow> int64 list \<Rightarrow> bool" where
  "worker_holds acc WorkerRange rd out \<longleftrightarrow> filter acc rd = out"
| "worker_holds acc (WorkerSelect n) rd out \<longleftrightarrow> filter acc rd = out @ [n]"
| "worker_holds acc WorkerReturned rd out \<longleftrightarrow>
     filter acc rd = out \<or> (\<exists>n. filter acc rd = out @ [n])"

definition filtered :: "config \<Rightarrow> state \<Rightarrow> bool" where
  "filtered c s \<longleftrightarrow>
     (\<forall>i<numWorkers c.
        worker_holds (accept c) (worker_pc s ! i) (worker_read s ! i)
          (primeNumStream_sent s ! i) \<and>
        set (worker_read s ! i) \<subseteq> set (intStream_sent s))"

text \<open>
  The forwarders: every item sent on the merged stream, and every item a forwarder holds,
  is a number some worker has sent.
\<close>

definition from_worker :: "int64 list list \<Rightarrow> val \<Rightarrow> bool" where
  "from_worker outs v \<longleftrightarrow> (\<exists>i<length outs. \<exists>n\<in>set (outs ! i). v = Int64 n)"

definition merged_ok :: "state \<Rightarrow> bool" where
  "merged_ok s \<longleftrightarrow>
     (\<forall>v\<in>set (reducedStream_sent s). from_worker (primeNumStream_sent s) v) \<and>
     (\<forall>i<length (fwd_pc s). \<forall>v. fwd_pc s ! i = FwdSelect v \<longrightarrow>
        from_worker (primeNumStream_sent s) v)"

text \<open>
  The consumer again: what it has sent, followed by the item it holds, is what was sent on
  the merged stream, apart from the \<open>nil\<close>s it got from the closed stream; with at least
  one worker there are none of those.
\<close>

fun cons_item :: "cons_pc \<Rightarrow> val list" where
  "cons_item (ConsSelect k v) = [v]"
| "cons_item p = []"

definition delivered :: "config \<Rightarrow> state \<Rightarrow> bool" where
  "delivered c s \<longleftrightarrow>
     filter (\<lambda>v. v \<noteq> NilValue) (result_sent s @ cons_item (cons_pc s)) =
       reducedStream_sent s \<and>
     (0 < numWorkers c \<longrightarrow> NilValue \<notin> set (result_sent s @ cons_item (cons_pc s)))"

text \<open>
  With a single worker the merged stream carries what that worker has sent, in the same
  order, up to the item its forwarder holds.
\<close>

fun fwd_holds :: "fwd_pc \<Rightarrow> val list \<Rightarrow> val list \<Rightarrow> bool" where
  "fwd_holds FwdRange rd out \<longleftrightarrow> rd = out"
| "fwd_holds (FwdSelect v) rd out \<longleftrightarrow> rd = out @ [v]"
| "fwd_holds FwdReturned rd out \<longleftrightarrow> prefix out rd"

definition in_order :: "config \<Rightarrow> state \<Rightarrow> bool" where
  "in_order c s \<longleftrightarrow>
     (numWorkers c = 1 \<longrightarrow>
        fwd_holds (fwd_pc s ! 0) (map Int64 (primeNumStream_sent s ! 0))
          (reducedStream_sent s))"

definition pipeline_inv :: "config \<Rightarrow> state \<Rightarrow> bool" where
  "pipeline_inv c s \<longleftrightarrow>
     well_formed c s \<and> alive c s \<and> counted c s \<and> generated c s \<and> projected s \<and>
     filtered c s \<and> merged_ok s \<and> delivered c s \<and> in_order c s"


text \<open>The consumer waits in its receive from the merged stream.\<close>

fun cons_receiving :: "cons_pc \<Rightarrow> bool" where
  "cons_receiving (ConsRecv k) = True"
| "cons_receiving p = False"


section \<open>Shutdown\<close>

text \<open>
  The scheduler that ends the pipeline once \<open>done\<close> is closed: it moves the first stage that
  has not returned, taking the \<open>done\<close> case where that stage is in a \<open>select\<close> and the end of
  the \<open>range\<close> where it waits for its input. A generator at the head of its loop has to call
  the source once more before it reaches the \<open>select\<close>.
\<close>

fun first_where :: "('a \<Rightarrow> bool) \<Rightarrow> 'a list \<Rightarrow> nat option" where
  "first_where P [] = None"
| "first_where P (x # xs) = (if P x then Some 0 else map_option Suc (first_where P xs))"

definition teardown :: "state \<Rightarrow> action option" where
  "teardown s =
     (case gen_pc s of
        GenLoop \<Rightarrow> Some GenCall
      | GenSelect v \<Rightarrow> Some GenDone
      | GenReturned \<Rightarrow>
     (case proj_pc s of
        ProjRange \<Rightarrow> Some ProjEnd
      | ProjSelect n \<Rightarrow> Some ProjDone
      | ProjReturned \<Rightarrow>
     (case first_where (\<lambda>p. p \<noteq> WorkerReturned) (worker_pc s) of
        Some i \<Rightarrow>
          (case worker_pc s ! i of
             WorkerSelect n \<Rightarrow> Some (WorkerDone i)
           | _ \<Rightarrow> Some (WorkerEnd i))
      | None \<Rightarrow>
     (case first_where (\<lambda>p. p \<noteq> FwdReturned) (fwd_pc s) of
        Some i \<Rightarrow>
          (case fwd_pc s ! i of
             FwdSelect v \<Rightarrow> Some (FwdDone i)
           | _ \<Rightarrow> Some (FwdEnd i))
      | None \<Rightarrow>
     (case closer_pc s of
        CloserWait \<Rightarrow> Some CloserClose
      | CloserReturned \<Rightarrow> None)))))"

text \<open>The number of steps that scheduler still needs.\<close>

fun gen_todo :: "gen_pc \<Rightarrow> nat" where
  "gen_todo GenLoop = 2"
| "gen_todo (GenSelect v) = 1"
| "gen_todo GenReturned = 0"

definition todo :: "state \<Rightarrow> nat" where
  "todo s =
     gen_todo (gen_pc s) + (if proj_pc s = ProjReturned then 0 else 1) +
     length (filter (\<lambda>p. p \<noteq> WorkerReturned) (worker_pc s)) +
     live_fwds (fwd_pc s) + (if closer_pc s = CloserReturned then 0 else 1)"

fun drain :: "config \<Rightarrow> nat \<Rightarrow> state \<Rightarrow> state option" where
  "drain c 0 s = Some s"
| "drain c (Suc n) s =
     (case teardown s of
        None \<Rightarrow> Some s
      | Some a \<Rightarrow> (case step c a s of None \<Rightarrow> None | Some s' \<Rightarrow> drain c n s'))"

text \<open>Every execution unit has returned and every channel is closed.\<close>

definition finished :: "state \<Rightarrow> bool" where
  "finished s \<longleftrightarrow>
     gen_pc s = GenReturned \<and> proj_pc s = ProjReturned \<and>
     list_all (\<lambda>p. p = WorkerReturned) (worker_pc s) \<and>
     list_all (\<lambda>p. p = FwdReturned) (fwd_pc s) \<and>
     closer_pc s = CloserReturned \<and> cons_pc s = ConsReturned \<and> main_pc s = MainReturned \<and>
     done_closed s \<and> valStream_closed s \<and> intStream_closed s \<and>
     list_all (\<lambda>b. b) (primeNumStream_closed s) \<and>
     reducedStream_closed s \<and> result_closed s"


section \<open>Particular runs\<close>

text \<open>
  Value sources that return 7 (a prime), 8 (not a prime) or a string on every call, with
  \<open>p\<close> results asked for and \<open>n\<close> workers.
\<close>

definition sevens :: "int \<Rightarrow> nat \<Rightarrow> config" where
  "sevens p n =
     \<lparr>getValue = (\<lambda>k. Inr (Int64 7)), accept = ProbablyPrime0, numWorkers = n, numPrimes = p\<rparr>"

definition eights :: "int \<Rightarrow> nat \<Rightarrow> config" where
  "eights p n =
     \<lparr>getValue = (\<lambda>k. Inr (Int64 8)), accept = ProbablyPrime0, numWorkers = n, numPrimes = p\<rparr>"


text \<open>One value travels from the source through worker 0 to \<open>main\<close>.\<close>

definition one_item :: "action list" where
  "one_item = [GenCall, GenSend, ProjSend 0, WorkerSend 0, ConsTest, FwdSend 0, ConsSend]"

definition five_items :: "action list" where
  "five_items = one_item @ one_item @ one_item @ one_item @ one_item @ [ConsTest]"

text \<open>
  With \<open>K = 0\<close>: the consumer returns at once and \<open>main\<close> closes \<open>done\<close>; afterwards a value
  still reaches worker 0, which drops it (\<open>cancelled_early\<close>); or every stage ends in turn
  (\<open>torn_down\<close>); or a rejected value goes round from the source to worker 0 (\<open>lap\<close>).
\<close>

definition cancel :: "action list" where
  "cancel = [ConsTest, MainReturn]"

definition cancelled_early :: "action list" where
  "cancelled_early = [ConsTest, MainReturn, GenCall, GenSend, ProjSend 0, WorkerDone 0]"

definition torn_down :: "action list" where
  "torn_down =
     [ConsTest, MainReturn, GenCall, GenDone, ProjEnd, WorkerEnd 0, FwdEnd 0, CloserClose]"

definition lap :: "action list" where
  "lap = [GenCall, GenSend, ProjSend 0]"

text \<open>Without workers: the merged stream is closed at once and the consumer reads from it.\<close>

definition no_workers :: "action list" where
  "no_workers = [CloserClose, ConsTest, ConsRecvClosed, ConsSend, ConsTest, MainReturn]"

text \<open>
  The state between two rounds of \<open>one_item\<close>: every stage is at the head of its loop,
  nothing is closed, and \<open>j\<close> items have gone all the way.
\<close>

definition quiet :: "nat \<Rightarrow> state \<Rightarrow> bool" where
  "quiet j s \<longleftrightarrow>
     panicked s = None \<and> gen_pc s = GenLoop \<and> proj_pc s = ProjRange \<and>
     0 < length (worker_pc s) \<and> worker_pc s ! 0 = WorkerRange \<and>
     0 < length (fwd_pc s) \<and> fwd_pc s ! 0 = FwdRange \<and>
     cons_pc s = ConsLoop (int j) \<and> main_pc s = MainRange \<and>
     \<not> valStream_closed s \<and> \<not> intStream_closed s \<and> \<not> primeNumStream_closed s ! 0 \<and>
     \<not> reducedStream_closed s \<and> \<not> result_closed s \<and>
     calls s = j \<and> length (result_sent s) = j"

text \<open>
  The state before and after a round of \<open>lap\<close>: the generator, the projection and worker 0
  are at the head of their loops, whether or not \<open>done\<close> is closed.
\<close>

definition idle :: "state \<Rightarrow> bool" where
  "idle s \<longleftrightarrow>
     panicked s = None \<and> gen_pc s = GenLoop \<and> proj_pc s = ProjRange \<and>
     0 < length (worker_pc s) \<and> worker_pc s ! 0 = WorkerRange \<and>
     \<not> valStream_closed s \<and> \<not> intStream_closed s"


section \<open>Lemmas\<close>

subsection \<open>The step function and the relation\<close>

lemmas step_defs =
  step_def die_def gen_call_def gen_send_def gen_done_def proj_end_def proj_send_def
  proj_done_def worker_return_def worker_end_def worker_send_def worker_done_def
  fwd_return_def fwd_end_def fwd_send_def fwd_done_def closer_close_def cons_return_def
  cons_test_def cons_recv_closed_def cons_send_def cons_done_def main_return_def


lemma step_transition:
  assumes "step c a s = Some s'"
  shows "transition c s a s'"
proof (cases a)
  case GenCall
  with assms show ?thesis
    by (simp add: step_def gen_call_def die_def split: if_splits gen_pc.splits sum.splits; hypsubst; simp add: transition.intros)
next
  case GenSend
  with assms show ?thesis
    by (simp add: step_def gen_send_def die_def split: if_splits gen_pc.splits val.splits; hypsubst; simp add: transition.intros)
next
  case GenDone
  with assms show ?thesis
    by (simp add: step_def gen_done_def die_def split: if_splits gen_pc.splits; hypsubst; simp add: transition.intros)
next
  case ProjEnd
  with assms show ?thesis
    by (simp add: step_def proj_end_def die_def split: if_splits; hypsubst; simp add: transition.intros)
next
  case (ProjSend i)
  with assms show ?thesis
    by (simp add: step_def proj_send_def die_def split: if_splits proj_pc.splits; hypsubst; simp add: transition.intros)
next
  case ProjDone
  with assms show ?thesis
    by (simp add: step_def proj_done_def die_def split: if_splits proj_pc.splits; hypsubst; simp add: transition.intros)
next
  case (WorkerEnd i)
  with assms show ?thesis
    by (simp add: step_def worker_end_def worker_return_def die_def split: if_splits; hypsubst; simp add: transition.intros)
next
  case (WorkerSend i)
  with assms show ?thesis
    by (simp add: step_def worker_send_def die_def split: if_splits worker_pc.splits; hypsubst; simp add: transition.intros)
next
  case (WorkerDone i)
  with assms show ?thesis
    by (simp add: step_def worker_done_def worker_return_def die_def split: if_splits worker_pc.splits; hypsubst; simp add: transition.intros)
next
  case (FwdEnd i)
  with assms show ?thesis
    by (simp add: step_def fwd_end_def fwd_return_def die_def split: if_splits; hypsubst; simp add: transition.intros)
next
  case (FwdSend i)
  with assms show ?thesis
    by (simp add: step_def fwd_send_def die_def split: if_splits fwd_pc.splits cons_pc.splits; hypsubst; simp add: transition.intros)
next
  case (FwdDone i)
  with assms show ?thesis
    by (simp add: step_def fwd_done_def fwd_return_def die_def split: if_splits fwd_pc.splits; hypsubst; simp add: transition.intros)
next
  case CloserClose
  with assms show ?thesis
    by (simp add: step_def closer_close_def die_def split: if_splits; hypsubst; simp add: transition.intros)
next
  case ConsTest
  with assms show ?thesis
    by (simp add: step_def cons_test_def cons_return_def die_def split: if_splits cons_pc.splits; hypsubst; simp add: transition.intros)
next
  case ConsRecvClosed
  with assms show ?thesis
    by (simp add: step_def cons_recv_closed_def die_def split: if_splits cons_pc.splits; hypsubst; simp add: transition.intros)
next
  case ConsSend
  with assms show ?thesis
    by (simp add: step_def cons_send_def die_def split: if_splits cons_pc.splits; hypsubst; simp add: transition.intros)
next
  case ConsDone
  with assms show ?thesis
    by (simp add: step_def cons_done_def cons_return_def die_def split: if_splits cons_pc.splits; hypsubst; simp add: transition.intros)
next
  case MainReturn
  with assms show ?thesis
    by (simp add: step_def main_return_def die_def split: if_splits; hypsubst; simp add: transition.intros)
qed

lemma transition_step:
  assumes "transition c s a s'" and "panicked s = None"
  shows "step c a s = Some s'"
  using assms
proof cases
  case (gen_send_mismatch v)
  with assms(2) show ?thesis by (cases v) (simp_all add: step_defs)
qed (simp_all add: step_defs)

subsection \<open>Executions\<close>

lemma exec_invariant:
  assumes "\<And>a s s'. P s \<Longrightarrow> step c a s = Some s' \<Longrightarrow> P s'"
    and "exec c sched s = Some s'" and "P s"
  shows "P s'"
  using assms(2,3)
proof (induction sched arbitrary: s)
  case Nil
  then show ?case by simp
next
  case (Cons a sched)
  from Cons.prems(1) obtain s1 where s1: "step c a s = Some s1" "exec c sched s1 = Some s'"
    by (auto split: option.splits)
  from Cons.prems(2) s1(1) have "P s1" by (rule assms(1))
  with Cons.IH s1(2) show ?case by blast
qed

subsection \<open>Channels and their owners\<close>

lemma live_fwds_app:
  "live_fwds (xs @ y # ys) =
   live_fwds xs + (if y = FwdReturned then 0 else 1) + live_fwds ys"
  by (simp add: live_fwds_def)

lemma live_fwds_update:
  assumes "i < length ps"
  shows "live_fwds (ps[i := p]) + (if ps ! i = FwdReturned then 0 else 1) =
         live_fwds ps + (if p = FwdReturned then 0 else 1)"
proof -
  have "ps[i := p] = take i ps @ p # drop (Suc i) ps"
    using assms by (rule upd_conv_take_nth_drop)
  then have new: "live_fwds (ps[i := p]) =
      live_fwds (take i ps) + (if p = FwdReturned then 0 else 1) + live_fwds (drop (Suc i) ps)"
    by (simp only: live_fwds_app)
  have "live_fwds ps = live_fwds (take i ps @ ps ! i # drop (Suc i) ps)"
    using id_take_nth_drop [OF assms] by simp
  then have old: "live_fwds ps =
      live_fwds (take i ps) + (if ps ! i = FwdReturned then 0 else 1) + live_fwds (drop (Suc i) ps)"
    by (simp only: live_fwds_app)
  show ?thesis
    unfolding new old by simp
qed

lemma live_fwds_replicate: "live_fwds (replicate n FwdRange) = n"
  by (simp add: live_fwds_def)

lemma well_formed_init: "well_formed c (init c)"
  by (simp add: well_formed_def init_def live_fwds_replicate)

lemma live_fwds_return:
  "i < length ps \<Longrightarrow> ps ! i \<noteq> FwdReturned \<Longrightarrow>
   int (live_fwds (ps[i := FwdReturned])) = int (live_fwds ps) - 1"
  using live_fwds_update [of i ps FwdReturned] by simp

lemma live_fwds_keep:
  "i < length ps \<Longrightarrow> ps ! i \<noteq> FwdReturned \<Longrightarrow> p \<noteq> FwdReturned \<Longrightarrow>
   live_fwds (ps[i := p]) = live_fwds ps"
  using live_fwds_update [of i ps p] by simp

lemma live_fwds_pos:
  "i < length ps \<Longrightarrow> ps ! i \<noteq> FwdReturned \<Longrightarrow> 0 < live_fwds ps"
  using live_fwds_update [of i ps FwdReturned] by simp

lemma live_fwds_zero: "live_fwds ps = 0 \<longleftrightarrow> list_all (\<lambda>p. p = FwdReturned) ps"
  by (induction ps) (simp_all add: live_fwds_def)

lemma well_formedD:
  assumes "well_formed c s"
  shows "length (worker_pc s) = numWorkers c"
    and "length (fwd_pc s) = numWorkers c"
    and "length (worker_read s) = numWorkers c"
    and "length (primeNumStream_sent s) = numWorkers c"
    and "valStream_closed s = (gen_pc s = GenReturned)"
    and "intStream_closed s = (proj_pc s = ProjReturned)"
    and "primeNumStream_closed s = map (\<lambda>p. p = WorkerReturned) (worker_pc s)"
    and "reducedStream_closed s = (closer_pc s = CloserReturned)"
    and "result_closed s = (cons_pc s = ConsReturned)"
    and "done_closed s = (main_pc s = MainReturned)"
    and "wg s = int (live_fwds (fwd_pc s))"
    and "closer_pc s = CloserReturned \<Longrightarrow> live_fwds (fwd_pc s) = 0"
    and "cons_pc s \<noteq> ConsReturned \<Longrightarrow> main_pc s = MainRange"
    and "main_pc s = MainReturned \<Longrightarrow> cons_pc s = ConsReturned"
    and "done_closes s = (if main_pc s = MainReturned then 1 else 0)"
    and "reducedStream_closes s = (if closer_pc s = CloserReturned then 1 else 0)"
    and "panicked s \<noteq> Some CloseOfClosed"
    and "panicked s \<noteq> Some SendOnClosed"
    and "panicked s \<noteq> Some NegativeWaitGroup"
  using assms by (auto simp add: well_formed_def)

lemma well_formed_closer_waits:
  assumes "well_formed c s" and "i < numWorkers c" and "fwd_pc s ! i \<noteq> FwdReturned"
  shows "closer_pc s = CloserWait"
proof (cases "closer_pc s")
  case CloserReturned
  with assms(1) have "live_fwds (fwd_pc s) = 0" by (simp add: well_formedD)
  moreover have "0 < live_fwds (fwd_pc s)"
    using assms by (intro live_fwds_pos [of i]) (simp_all add: well_formedD)
  ultimately show ?thesis by simp
qed simp

lemma well_formed_wg_pos:
  assumes "well_formed c s" and "i < numWorkers c" and "fwd_pc s ! i \<noteq> FwdReturned"
  shows "0 < wg s"
  using assms live_fwds_pos [of i "fwd_pc s"] by (simp add: well_formedD)

lemma open_update:
  "i < length ps \<Longrightarrow> ps ! i \<noteq> WorkerReturned \<Longrightarrow>
   (map (\<lambda>p. p = WorkerReturned) ps)[i := False] = map (\<lambda>p. p = WorkerReturned) ps"
  by (simp add: list_update_same_conv)

lemma well_formed_step:
  assumes "well_formed c s" and "step c a s = Some s'"
  shows "well_formed c s'"
proof -
  note w = well_formedD [OF assms(1)]
  note simps = well_formed_def w map_update open_update live_fwds_keep live_fwds_return
  from assms(2) have "transition c s a s'" by (rule step_transition)
  then show ?thesis
  proof cases
    case (fwd_end_negative i)
    then show ?thesis using well_formed_wg_pos [OF assms(1), of i] by (simp add: w)
  next
    case (fwd_end i)
    then show ?thesis using well_formed_closer_waits [OF assms(1), of i] by (simp add: simps)
  next
    case (fwd_send_closed i v)
    then show ?thesis using well_formed_closer_waits [OF assms(1), of i] by (simp add: w)
  next
    case (fwd_send i v k)
    then show ?thesis using well_formed_closer_waits [OF assms(1), of i] by (simp add: simps)
  next
    case (fwd_done_negative i v)
    then show ?thesis using well_formed_wg_pos [OF assms(1), of i] by (simp add: w)
  next
    case (fwd_done i v)
    then show ?thesis using well_formed_closer_waits [OF assms(1), of i] by (simp add: simps)
  qed (simp_all add: simps)
qed

lemma well_formed_exec:
  assumes "exec c sched (init c) = Some s"
  shows "well_formed c s"
  using well_formed_step assms well_formed_init by (rule exec_invariant)

subsection \<open>Nothing returns before \<open>main\<close>\<close>

lemma notin_set_update: "x \<notin> set xs \<Longrightarrow> y \<noteq> x \<Longrightarrow> x \<notin> set (xs[i := y])"
  using set_update_subset_insert [of xs i y] by auto

lemma alive_init: "alive c (init c)"
  by (simp add: alive_def init_def)

lemma alive_step:
  assumes "well_formed c s" and "alive c s" and "step c a s = Some s'"
  shows "alive c s'"
proof (cases "main_pc s")
  case MainReturned
  from assms(3) have "transition c s a s'" by (rule step_transition)
  then show ?thesis using MainReturned by cases (simp_all add: alive_def)
next
  case MainRange
  note w = well_formedD [OF assms(1)]
  from assms(2) MainRange have live:
    "gen_pc s \<noteq> GenReturned" "proj_pc s \<noteq> ProjReturned"
    "WorkerReturned \<notin> set (worker_pc s)" "FwdReturned \<notin> set (fwd_pc s)"
    "0 < numWorkers c \<Longrightarrow> closer_pc s = CloserWait"
    "closer_pc s = CloserReturned \<Longrightarrow> numWorkers c = 0"
    by (auto simp add: alive_def)
  have nth: "worker_pc s ! i \<noteq> WorkerReturned" "fwd_pc s ! i \<noteq> FwdReturned"
    if "i < numWorkers c" for i
    using that by (metis live(3) nth_mem w(1), metis live(4) nth_mem w(2))
  from assms(3) have "transition c s a s'" by (rule step_transition)
  then show ?thesis
  proof cases
    case closer_close
    show ?thesis
    proof (cases "numWorkers c")
      case 0
      with closer_close show ?thesis using live by (simp add: alive_def)
    next
      case (Suc n)
      then have "0 < wg s" using well_formed_wg_pos [OF assms(1), of 0] nth(2) [of 0] by simp
      with closer_close show ?thesis by simp
    qed
  qed (use MainRange in \<open>simp_all add: alive_def w live nth notin_set_update\<close>)
qed

subsection \<open>What each stage has passed on\<close>

lemma counted_init: "counted c (init c)"
  by (simp add: counted_def init_def)

lemma counted_step:
  assumes "well_formed c s" and "counted c s" and "step c a s = Some s'"
  shows "counted c s'"
proof -
  note w = well_formedD [OF assms(1)]
  from assms(3) have "transition c s a s'" by (rule step_transition)
  then show ?thesis
  proof cases
    case (cons_test_enter k)
    then show ?thesis using assms(2) by (simp add: counted_def)
  next
    case (cons_test_leave k)
    with assms(2) have "k = int (length (result_sent s))" "k \<le> max 0 (numPrimes c)"
      by (simp_all add: counted_def)
    with cons_test_leave(4) have "int (length (result_sent s)) = max 0 (numPrimes c)"
      by linarith
    with cons_test_leave(2) show ?thesis by (simp add: counted_def)
  next
    case (cons_recv_closed k)
    then show ?thesis using assms(2) by (simp add: counted_def)
  next
    case (cons_send k v)
    then show ?thesis using assms(2) by (simp add: counted_def)
  next
    case (cons_done k v)
    then show ?thesis using w(14) by (simp add: w)
  next
    case (fwd_send i v k)
    then show ?thesis using assms(2) by (simp add: counted_def)
  qed (use assms(2) in \<open>simp_all add: counted_def\<close>)
qed

lemma step_not_panicked: "step c a s = Some s' \<Longrightarrow> panicked s = None"
  by (simp add: step_def split: if_splits)

lemma generated_init: "generated c (init c)"
  by (simp add: generated_def init_def)

lemma generated_step:
  assumes "generated c s" and "step c a s = Some s'"
  shows "generated c s'"
proof -
  note np = step_not_panicked [OF assms(2)]
  from assms(1) have sent:
    "map Inr (valStream_sent s) = map (getValue c) [0..<length (valStream_sent s)]"
    and holds: "gen_holds (getValue c) (gen_pc s) (panicked s) (calls s) (length (valStream_sent s))"
    by (simp_all add: generated_def)
  from assms(2) have "transition c s a s'" by (rule step_transition)
  then show ?thesis
  proof cases
    case (gen_call_panic p)
    then show ?thesis using sent holds np by (simp add: generated_def)
  next
    case (gen_call v)
    then show ?thesis using sent holds np by (simp add: generated_def)
  next
    case (gen_send n)
    then show ?thesis using sent holds np by (simp add: generated_def)
  next
    case (gen_send_mismatch v)
    then show ?thesis using sent holds np by (simp add: generated_def)
  next
    case (gen_done v)
    then show ?thesis using sent holds np by (simp add: generated_def)
  qed (use sent holds np in \<open>cases "gen_pc s"; simp add: generated_def\<close>)+
qed

lemma int64s_snoc:
  "int64s (vs @ [v]) = int64s vs @ (case v of Int64 n \<Rightarrow> [n] | _ \<Rightarrow> [])"
  by (induction vs rule: int64s.induct) (simp_all split: val.splits)

lemma projected_init: "projected (init c)"
  by (simp add: projected_def init_def)

lemma projected_step:
  assumes "projected s" and "step c a s = Some s'"
  shows "projected s'"
proof -
  note np = step_not_panicked [OF assms(2)]
  from assms(1) np have holds:
    "proj_holds (proj_pc s) (int64s (valStream_sent s)) (intStream_sent s)"
    and ints: "valStream_sent s = map Int64 (int64s (valStream_sent s))"
    by (simp_all add: projected_def)
  have keep: "map Int64 (int64s (valStream_sent s)) = valStream_sent s"
    using ints by simp
  from assms(2) have "transition c s a s'" by (rule step_transition)
  then show ?thesis
  proof cases
    case (gen_send_mismatch v)
    then show ?thesis using holds
      by (cases v) (simp_all add: projected_def int64s_snoc)
  qed (use holds keep in \<open>simp_all add: projected_def int64s_snoc\<close>)
qed

lemma filtered_init: "filtered c (init c)"
  by (simp add: filtered_def init_def)

lemma filtered_step:
  assumes "well_formed c s" and "filtered c s" and "step c a s = Some s'"
  shows "filtered c s'"
proof -
  note w = well_formedD [OF assms(1)]
  have holds: "worker_holds (accept c) (worker_pc s ! j) (worker_read s ! j)
      (primeNumStream_sent s ! j)"
    and sub: "set (worker_read s ! j) \<subseteq> set (intStream_sent s)"
    if "j < numWorkers c" for j
    using assms(2) that by (simp_all add: filtered_def)
  from assms(3) have "transition c s a s'" by (rule step_transition)
  then show ?thesis
  proof cases
    case (proj_send_accept n i)
    show ?thesis
      unfolding filtered_def
    proof (intro allI impI)
      fix j assume j: "j < numWorkers c"
      show "worker_holds (accept c) (worker_pc s' ! j) (worker_read s' ! j)
              (primeNumStream_sent s' ! j) \<and>
            set (worker_read s' ! j) \<subseteq> set (intStream_sent s')"
        using proj_send_accept holds [OF j] sub [OF j] j
        by (cases "i = j") (auto simp add: w)
    qed
  next
    case (proj_send_reject n i)
    show ?thesis
      unfolding filtered_def
    proof (intro allI impI)
      fix j assume j: "j < numWorkers c"
      show "worker_holds (accept c) (worker_pc s' ! j) (worker_read s' ! j)
              (primeNumStream_sent s' ! j) \<and>
            set (worker_read s' ! j) \<subseteq> set (intStream_sent s')"
        using proj_send_reject holds [OF j] sub [OF j] j
        by (cases "i = j") (auto simp add: w)
    qed
  next
    case (worker_end i)
    show ?thesis
      unfolding filtered_def
    proof (intro allI impI)
      fix j assume j: "j < numWorkers c"
      show "worker_holds (accept c) (worker_pc s' ! j) (worker_read s' ! j)
              (primeNumStream_sent s' ! j) \<and>
            set (worker_read s' ! j) \<subseteq> set (intStream_sent s')"
        using worker_end holds [OF j] sub [OF j] j
        by (cases "i = j") (simp_all add: w)
    qed
  next
    case (worker_send i n)
    show ?thesis
      unfolding filtered_def
    proof (intro allI impI)
      fix j assume j: "j < numWorkers c"
      show "worker_holds (accept c) (worker_pc s' ! j) (worker_read s' ! j)
              (primeNumStream_sent s' ! j) \<and>
            set (worker_read s' ! j) \<subseteq> set (intStream_sent s')"
        using worker_send holds [OF j] sub [OF j] j
        by (cases "i = j") (simp_all add: w)
    qed
  next
    case (worker_done i n)
    show ?thesis
      unfolding filtered_def
    proof (intro allI impI)
      fix j assume j: "j < numWorkers c"
      show "worker_holds (accept c) (worker_pc s' ! j) (worker_read s' ! j)
              (primeNumStream_sent s' ! j) \<and>
            set (worker_read s' ! j) \<subseteq> set (intStream_sent s')"
        using worker_done holds [OF j] sub [OF j] j
        by (cases "i = j") (simp_all add: w)
    qed
  qed (use assms(2) in \<open>simp_all add: filtered_def\<close>)
qed

lemma from_worker_grow:
  assumes "from_worker outs v" and "i < length outs"
  shows "from_worker (outs[i := outs ! i @ [n]]) v"
proof -
  from assms(1) obtain j m where j: "j < length outs" "m \<in> set (outs ! j)" "v = Int64 m"
    by (auto simp: from_worker_def)
  then have "m \<in> set ((outs[i := outs ! i @ [n]]) ! j)"
    using assms(2) by (cases "i = j") simp_all
  with j show ?thesis by (auto simp: from_worker_def)
qed

lemma from_worker_new:
  assumes "i < length outs"
  shows "from_worker (outs[i := outs ! i @ [n]]) (Int64 n)"
  unfolding from_worker_def using assms by (intro exI [of _ i]) simp

lemma from_worker_not_nil: "from_worker outs v \<Longrightarrow> v \<noteq> NilValue"
  by (auto simp: from_worker_def)

lemma merged_ok_init: "merged_ok (init c)"
  by (simp add: merged_ok_def init_def)

lemma merged_ok_step:
  assumes "well_formed c s" and "merged_ok s" and "step c a s = Some s'"
  shows "merged_ok s'"
proof -
  note w = well_formedD [OF assms(1)]
  have sent: "from_worker (primeNumStream_sent s) v" if "v \<in> set (reducedStream_sent s)" for v
    using assms(2) that by (simp add: merged_ok_def)
  have held: "from_worker (primeNumStream_sent s) v"
    if "j < numWorkers c" "fwd_pc s ! j = FwdSelect v" for j v
    using assms(2) that by (simp add: merged_ok_def w)
  from assms(3) have "transition c s a s'" by (rule step_transition)
  then show ?thesis
  proof cases
    case (worker_send i n)
    have "from_worker (primeNumStream_sent s') v" if "v \<in> set (reducedStream_sent s')" for v
      using worker_send that sent [of v] by (simp add: from_worker_grow w)
    moreover have "from_worker (primeNumStream_sent s') v"
      if "j < length (fwd_pc s')" "fwd_pc s' ! j = FwdSelect v" for j v
    proof (cases "i = j")
      case True
      with that worker_send have "v = Int64 n" by (simp add: w)
      moreover have "from_worker (primeNumStream_sent s') (Int64 n)"
        using worker_send by (simp add: w from_worker_new)
      ultimately show ?thesis by simp
    next
      case False
      with that worker_send held [of j v] show ?thesis by (simp add: w from_worker_grow)
    qed
    ultimately show ?thesis unfolding merged_ok_def by blast
  next
    case (fwd_end i)
    have "from_worker (primeNumStream_sent s') v"
      if "j < length (fwd_pc s')" "fwd_pc s' ! j = FwdSelect v" for j v
      using that fwd_end held [of j v] by (cases "i = j") (simp_all add: w)
    moreover have "from_worker (primeNumStream_sent s') v" if "v \<in> set (reducedStream_sent s')" for v
      using fwd_end that sent [of v] by simp
    ultimately show ?thesis unfolding merged_ok_def by blast
  next
    case (fwd_done i u)
    have "from_worker (primeNumStream_sent s') v"
      if "j < length (fwd_pc s')" "fwd_pc s' ! j = FwdSelect v" for j v
      using that fwd_done held [of j v] by (cases "i = j") (simp_all add: w)
    moreover have "from_worker (primeNumStream_sent s') v" if "v \<in> set (reducedStream_sent s')" for v
      using fwd_done that sent [of v] by simp
    ultimately show ?thesis unfolding merged_ok_def by blast
  next
    case (fwd_send i u k)
    have "from_worker (primeNumStream_sent s') v"
      if "j < length (fwd_pc s')" "fwd_pc s' ! j = FwdSelect v" for j v
      using that fwd_send held [of j v] by (cases "i = j") (simp_all add: w)
    moreover have "from_worker (primeNumStream_sent s') v" if "v \<in> set (reducedStream_sent s')" for v
      using fwd_send that sent [of v] held [of i u] by (auto simp: w)
    ultimately show ?thesis unfolding merged_ok_def by blast
  qed (use assms(2) in \<open>simp_all add: merged_ok_def\<close>)
qed

lemma delivered_init: "delivered c (init c)"
  by (simp add: delivered_def init_def)

lemma delivered_step:
  assumes "well_formed c s" and "alive c s" and "merged_ok s" and "delivered c s"
    and "step c a s = Some s'"
  shows "delivered c s'"
proof -
  note w = well_formedD [OF assms(1)]
  from assms(4) have eq: "filter (\<lambda>v. v \<noteq> NilValue) (result_sent s @ cons_item (cons_pc s)) =
       reducedStream_sent s"
    and nn: "0 < numWorkers c \<Longrightarrow> NilValue \<notin> set (result_sent s @ cons_item (cons_pc s))"
    by (simp_all add: delivered_def)
  from assms(5) have "transition c s a s'" by (rule step_transition)
  then show ?thesis
  proof cases
    case (fwd_send i v k)
    with assms(3) have "from_worker (primeNumStream_sent s) v" by (simp add: merged_ok_def)
    then have "v \<noteq> NilValue" by (rule from_worker_not_nil)
    with fwd_send eq nn show ?thesis by (simp add: delivered_def)
  next
    case (cons_test_enter k)
    with eq nn show ?thesis by (simp add: delivered_def)
  next
    case (cons_test_leave k)
    with eq nn show ?thesis by (simp add: delivered_def)
  next
    case (cons_recv_closed k)
    then have "main_pc s = MainRange" by (simp add: w)
    with assms(2) cons_recv_closed have "numWorkers c = 0" by (auto simp add: alive_def w)
    with cons_recv_closed eq show ?thesis by (simp add: delivered_def)
  next
    case (cons_send k v)
    with eq nn show ?thesis by (simp add: delivered_def)
  next
    case (cons_done k v)
    then show ?thesis using w(14) by (simp add: w)
  qed (use assms(4) in \<open>simp_all add: delivered_def\<close>)
qed

lemma in_order_init: "in_order c (init c)"
  by (simp add: in_order_def init_def)

lemma in_order_step:
  assumes "well_formed c s" and "in_order c s" and "step c a s = Some s'"
  shows "in_order c s'"
proof (cases "numWorkers c = 1")
  case False
  then show ?thesis by (simp add: in_order_def)
next
  case True
  note w = well_formedD [OF assms(1)]
  from assms(2) True have holds:
    "fwd_holds (fwd_pc s ! 0) (map Int64 (primeNumStream_sent s ! 0)) (reducedStream_sent s)"
    by (simp add: in_order_def)
  from assms(3) have "transition c s a s'" by (rule step_transition)
  then show ?thesis
  proof cases
    case (worker_send i n)
    with True holds show ?thesis by (simp add: in_order_def w)
  next
    case (fwd_end i)
    with True holds show ?thesis by (simp add: in_order_def w)
  next
    case (fwd_send i v k)
    with True holds show ?thesis by (simp add: in_order_def w)
  next
    case (fwd_done i v)
    with True holds show ?thesis by (simp add: in_order_def w)
  qed (use holds in \<open>simp_all add: in_order_def\<close>)
qed

subsection \<open>All invariants together\<close>

lemma pipeline_inv_init: "pipeline_inv c (init c)"
  by (simp add: pipeline_inv_def well_formed_init alive_init counted_init generated_init projected_init
      filtered_init merged_ok_init delivered_init in_order_init)

lemma pipeline_inv_step:
  assumes "pipeline_inv c s" and "step c a s = Some s'"
  shows "pipeline_inv c s'"
proof -
  from assms(1) have i: "well_formed c s" "alive c s" "counted c s" "generated c s"
    "projected s" "filtered c s" "merged_ok s" "delivered c s" "in_order c s"
    by (simp_all add: pipeline_inv_def)
  note st = assms(2)
  show ?thesis
    unfolding pipeline_inv_def
    using well_formed_step [OF i(1) st] alive_step [OF i(1,2) st] counted_step [OF i(1,3) st]
      generated_step [OF i(4) st] projected_step [OF i(5) st] filtered_step [OF i(1,6) st]
      merged_ok_step [OF i(1,7) st] delivered_step [OF i(1,2,7,8) st]
      in_order_step [OF i(1,9) st]
    by simp
qed

lemma pipeline_inv_exec:
  assumes "exec c sched (init c) = Some s"
  shows "pipeline_inv c s"
  using pipeline_inv_step assms pipeline_inv_init by (rule exec_invariant)

lemma exec_append:
  "exec c (xs @ ys) s = (case exec c xs s of None \<Rightarrow> None | Some s' \<Rightarrow> exec c ys s')"
  by (induction xs arbitrary: s) (simp_all split: option.splits)

subsection \<open>The range of \<open>rand.Int63n\<close>\<close>

lemma sint_pos_eq_uint:
  fixes n :: "64 word"
  assumes "0 < sint n"
  shows "uint n = sint n"
proof -
  have lt: "uint n < 2 ^ 64" using uint_lt2p [of n] by simp
  have tb: "take_bit 64 (uint n) = uint n"
    by (rule take_bit_int_eq_self) (use lt in simp_all)
  have "sint n = signed_take_bit 63 (uint n)" by (simp add: sint_uint)
  also have "\<dots> = take_bit 64 (uint n) - 2 ^ 64 * of_bool (bit (uint n) 63)"
    by (simp add: signed_take_bit_eq_take_bit_minus)
  finally have "sint n = uint n - 2 ^ 64 * of_bool (bit (uint n) 63)"
    by (simp only: tb)
  with assms lt show ?thesis by (cases "bit (uint n) 63") simp_all
qed

lemma uint_small_eq_sint:
  fixes v :: "64 word"
  assumes "uint v < 2 ^ 63"
  shows "sint v = uint v"
proof -
  have "- (2 ^ 63) \<le> (0::int)" by simp
  also have "0 \<le> uint v" by simp
  finally have "- (2 ^ 63) \<le> uint v" .
  then have "signed_take_bit 63 (uint v) = uint v"
    using assms by (rule signed_take_bit_int_eq_self)
  then show ?thesis by (simp add: sint_uint)
qed

lemma mod_range:
  fixes n x :: "64 word"
  assumes "0 < sint n"
  shows "0 \<le> sint (x mod n) \<and> sint (x mod n) < sint n"
proof -
  have n: "uint n = sint n" using assms by (rule sint_pos_eq_uint)
  have "sint n < 2 ^ 63" using sint_lt [of n] by simp
  with n have small: "uint n < 2 ^ 63" by simp
  have "uint (x mod n) = uint x mod uint n" by (rule uint_mod)
  with assms n have lt: "uint (x mod n) < uint n" by simp
  with small have "uint (x mod n) < 2 ^ 63" by linarith
  then have "sint (x mod n) = uint (x mod n)" by (rule uint_small_eq_sint)
  with lt n show ?thesis by simp
qed

lemma randVal_range:
  assumes "0 < sint r" and "randVal r raw = Inr v"
  shows "\<exists>n. v = Int64 n \<and> 0 \<le> sint n \<and> sint n < sint r"
  using assms mod_range [OF assms(1), of "take_bit 63 raw"]
  by (auto simp: randVal_def Int63n_def)


subsection \<open>From the source to the consumer\<close>

lemma int64s_mem: "n \<in> set (int64s vs) \<longleftrightarrow> Int64 n \<in> set vs"
  by (induction vs rule: int64s.induct) auto

lemma worker_outputs_accepted:
  assumes "filtered c s" and "i < numWorkers c" and "n \<in> set (primeNumStream_sent s ! i)"
  shows "accept c n \<and> n \<in> set (intStream_sent s)"
proof -
  from assms(1,2) have holds: "worker_holds (accept c) (worker_pc s ! i) (worker_read s ! i)
      (primeNumStream_sent s ! i)"
    and sub: "set (worker_read s ! i) \<subseteq> set (intStream_sent s)"
    by (simp_all add: filtered_def)
  from holds have "filter (accept c) (worker_read s ! i) = primeNumStream_sent s ! i \<or>
      (\<exists>m. filter (accept c) (worker_read s ! i) = primeNumStream_sent s ! i @ [m])"
    by (cases "worker_pc s ! i") simp_all
  with assms(3) have "n \<in> set (filter (accept c) (worker_read s ! i))"
    by (elim disjE exE) simp_all
  with sub show ?thesis by auto
qed

lemma typed_items_sourced:
  assumes "generated c s" and "projected s" and "n \<in> set (intStream_sent s)"
  shows "\<exists>k. getValue c k = Inr (Int64 n)"
proof -
  from assms(2) have "proj_holds (proj_pc s) (int64s (valStream_sent s)) (intStream_sent s)"
    by (simp add: projected_def)
  then have "int64s (valStream_sent s) = intStream_sent s \<or>
      (\<exists>m. int64s (valStream_sent s) = intStream_sent s @ [m])"
    by (cases "proj_pc s") simp_all
  with assms(3) have "n \<in> set (int64s (valStream_sent s))"
    by (elim disjE exE) simp_all
  then have "Int64 n \<in> set (valStream_sent s)" by (simp add: int64s_mem)
  then obtain k where k: "k < length (valStream_sent s)" "valStream_sent s ! k = Int64 n"
    by (auto simp: in_set_conv_nth)
  from assms(1) have "map Inr (valStream_sent s) ! k =
      map (getValue c) [0..<length (valStream_sent s)] ! k"
    by (simp add: generated_def)
  with k have "getValue c k = Inr (Int64 n)" by simp
  then show ?thesis ..
qed

lemma merged_items_sourced:
  assumes "pipeline_inv c s" and "v \<in> set (reducedStream_sent s)"
  shows "\<exists>n. v = Int64 n \<and> accept c n \<and> (\<exists>k. getValue c k = Inr (Int64 n))"
proof -
  from assms(1) have i: "well_formed c s" "generated c s" "projected s" "filtered c s"
    "merged_ok s"
    by (simp_all add: pipeline_inv_def)
  from i(5) assms(2) have "from_worker (primeNumStream_sent s) v" by (simp add: merged_ok_def)
  then obtain j n where j: "j < length (primeNumStream_sent s)"
    "n \<in> set (primeNumStream_sent s ! j)" "v = Int64 n"
    by (auto simp: from_worker_def)
  from j(1) have "j < numWorkers c" by (simp add: well_formedD [OF i(1)])
  from worker_outputs_accepted [OF i(4) this j(2)]
  have "accept c n" "n \<in> set (intStream_sent s)" by simp_all
  with typed_items_sourced [OF i(2,3)] j(3) show ?thesis by blast
qed

lemma result_items_merged:
  assumes "pipeline_inv c s" and "v \<in> set (result_sent s)" and "0 < numWorkers c"
  shows "v \<in> set (reducedStream_sent s)"
proof -
  from assms(1) have d: "delivered c s" by (simp add: pipeline_inv_def)
  with assms(3) have nn: "NilValue \<notin> set (result_sent s @ cons_item (cons_pc s))"
    by (simp add: delivered_def)
  with assms(2) have "v \<noteq> NilValue" by auto
  with assms(2) have "v \<in> set (filter (\<lambda>v. v \<noteq> NilValue)
      (result_sent s @ cons_item (cons_pc s)))"
    by simp
  with d show ?thesis by (simp add: delivered_def)
qed

lemma result_prefix_merged:
  assumes "pipeline_inv c s" and "0 < numWorkers c"
  shows "prefix (result_sent s) (reducedStream_sent s)"
proof -
  from assms(1) have d: "delivered c s" by (simp add: pipeline_inv_def)
  with assms(2) have nn: "NilValue \<notin> set (result_sent s @ cons_item (cons_pc s))"
    by (simp add: delivered_def)
  then have "filter (\<lambda>v. v \<noteq> NilValue) (result_sent s @ cons_item (cons_pc s)) =
      result_sent s @ cons_item (cons_pc s)"
    by (simp only: filter_id_conv) blast
  with d have "result_sent s @ cons_item (cons_pc s) = reducedStream_sent s"
    by (simp add: delivered_def)
  then show ?thesis by (metis prefixI)
qed

lemma merged_prefix_worker:
  assumes "pipeline_inv c s" and "numWorkers c = 1"
  shows "prefix (reducedStream_sent s) (map Int64 (primeNumStream_sent s ! 0))"
proof -
  from assms have "fwd_holds (fwd_pc s ! 0) (map Int64 (primeNumStream_sent s ! 0))
      (reducedStream_sent s)"
    by (simp add: pipeline_inv_def in_order_def)
  then show ?thesis by (cases "fwd_pc s ! 0") simp_all
qed

subsection \<open>Searching and counting in lists\<close>

lemma first_where_Some:
  "first_where P xs = Some i \<Longrightarrow> i < length xs \<and> P (xs ! i)"
proof (induction xs arbitrary: i)
  case Nil
  then show ?case by simp
next
  case (Cons x xs)
  show ?case
  proof (cases "P x")
    case True
    with Cons.prems show ?thesis by simp
  next
    case False
    with Cons.prems obtain j where j: "first_where P xs = Some j" "i = Suc j" by auto
    from Cons.IH [OF j(1)] j(2) show ?thesis by simp
  qed
qed

lemma first_where_None: "first_where P xs = None \<Longrightarrow> list_all (\<lambda>x. \<not> P x) xs"
  by (induction xs) (simp_all split: if_splits)

lemma filter_update_drop:
  assumes "i < length xs" and "P (xs ! i)" and "\<not> P y"
  shows "Suc (length (filter P (xs[i := y]))) = length (filter P xs)"
proof -
  have "xs[i := y] = take i xs @ y # drop (Suc i) xs"
    using assms(1) by (rule upd_conv_take_nth_drop)
  then have new: "length (filter P (xs[i := y])) =
      length (filter P (take i xs)) + length (filter P (drop (Suc i) xs))"
    using assms(3) by simp
  have "length (filter P xs) = length (filter P (take i xs @ xs ! i # drop (Suc i) xs))"
    using id_take_nth_drop [OF assms(1)] by simp
  then have "length (filter P xs) =
      length (filter P (take i xs)) + Suc (length (filter P (drop (Suc i) xs)))"
    using assms(2) by simp
  with new show ?thesis by simp
qed

subsection \<open>Particular values\<close>

lemma ProbablyPrime0_7: "ProbablyPrime0 7"
  by (simp add: ProbablyPrime0_def is_prime_def upt_rec)

lemma not_ProbablyPrime0_8: "\<not> ProbablyPrime0 8"
  by (simp add: ProbablyPrime0_def is_prime_def upt_rec)

lemmas run_simps = sevens_def one_item_def init_def step_defs ProbablyPrime0_7

lemma randVal_107: "randVal 100 107 = Inr (Int64 7)"
  by (simp add: randVal_def Int63n_def)

subsection \<open>Further consequences\<close>

lemma consumer_count:
  assumes "pipeline_inv c s" and "0 \<le> numPrimes c"
  shows "int (length (result_sent s)) \<le> numPrimes c"
    and "result_closed s \<Longrightarrow> int (length (result_sent s)) = numPrimes c"
proof -
  from assms(1) have wf: "well_formed c s"
    and cnt: "cons_counts (numPrimes c) (cons_pc s) (result_sent s)"
    by (simp_all add: pipeline_inv_def counted_def)
  show "int (length (result_sent s)) \<le> numPrimes c"
    using cnt assms(2) by (cases "cons_pc s") simp_all
  show "int (length (result_sent s)) = numPrimes c" if "result_closed s"
    using that cnt assms(2) by (simp add: well_formedD [OF wf])
qed








subsection \<open>The scheduler that ends the pipeline\<close>

lemma teardown_step:
  assumes wf: "well_formed c s" and dn: "done_closed s" and np: "panicked s = None"
    and src: "\<And>k. \<exists>v. getValue c k = Inr v" and td: "teardown s = Some a"
  shows "\<exists>s'. step c a s = Some s' \<and> todo s' < todo s \<and> panicked s' = None \<and> done_closed s'"
proof -
  note w = well_formedD [OF wf]
  show ?thesis
  proof (cases "gen_pc s")
    case GenLoop
    with td have a: "a = GenCall" by (simp add: teardown_def)
    from src obtain v where "getValue c (calls s) = Inr v" by blast
    with GenLoop np have "step c GenCall s = Some (s\<lparr>gen_pc := GenSelect v, calls := Suc (calls s)\<rparr>)"
      by (simp add: step_def gen_call_def)
    with GenLoop np dn a show ?thesis by (simp add: todo_def)
  next
    case (GenSelect v)
    with td have a: "a = GenDone" by (simp add: teardown_def)
    from GenSelect np dn
    have "step c GenDone s = Some (s\<lparr>gen_pc := GenReturned, valStream_closed := True\<rparr>)"
      by (simp add: step_def gen_done_def w)
    with GenSelect np dn a show ?thesis by (simp add: todo_def)
  next
    case GenReturned
    show ?thesis
    proof (cases "proj_pc s")
      case ProjRange
      with td GenReturned have a: "a = ProjEnd" by (simp add: teardown_def)
      from ProjRange GenReturned np
      have "step c ProjEnd s = Some (s\<lparr>proj_pc := ProjReturned, intStream_closed := True\<rparr>)"
        by (simp add: step_def proj_end_def w)
      with ProjRange np dn a show ?thesis by (simp add: todo_def)
    next
      case (ProjSelect n)
      with td GenReturned have a: "a = ProjDone" by (simp add: teardown_def)
      from ProjSelect np dn
      have "step c ProjDone s = Some (s\<lparr>proj_pc := ProjReturned, intStream_closed := True\<rparr>)"
        by (simp add: step_def proj_done_def w)
      with ProjSelect np dn a show ?thesis by (simp add: todo_def)
    next
      case ProjReturned
      show ?thesis
      proof (cases "first_where (\<lambda>p. p \<noteq> WorkerReturned) (worker_pc s)")
        case (Some i)
        from first_where_Some [OF Some] have i: "i < length (worker_pc s)"
          "worker_pc s ! i \<noteq> WorkerReturned"
          by simp_all
        let ?s' = "s\<lparr>worker_pc := (worker_pc s)[i := WorkerReturned],
          primeNumStream_closed := (primeNumStream_closed s)[i := True]\<rparr>"
        from i have opn: "\<not> primeNumStream_closed s ! i" by (simp add: w)
        have less: "todo ?s' < todo s"
          using filter_update_drop [of i "worker_pc s" "\<lambda>p. p \<noteq> WorkerReturned" WorkerReturned] i
          by (simp add: todo_def)
        show ?thesis
        proof (cases "worker_pc s ! i")
          case WorkerRange
          with td GenReturned ProjReturned Some have a: "a = WorkerEnd i"
            by (simp add: teardown_def)
          from WorkerRange ProjReturned i(1) opn np have "step c (WorkerEnd i) s = Some ?s'"
            by (simp add: step_def worker_end_def worker_return_def w)
          with less np dn a show ?thesis by simp
        next
          case (WorkerSelect n)
          with td GenReturned ProjReturned Some have a: "a = WorkerDone i"
            by (simp add: teardown_def)
          from WorkerSelect i(1) opn np dn have "step c (WorkerDone i) s = Some ?s'"
            by (simp add: step_def worker_done_def worker_return_def w)
          with less np dn a show ?thesis by simp
        next
          case WorkerReturned
          with i(2) show ?thesis by simp
        qed
      next
        case None
        from first_where_None [OF None]
        have workers: "list_all (\<lambda>p. p = WorkerReturned) (worker_pc s)" by simp
        show ?thesis
        proof (cases "first_where (\<lambda>p. p \<noteq> FwdReturned) (fwd_pc s)")
          case (Some i)
          from first_where_Some [OF Some] have i: "i < length (fwd_pc s)"
            "fwd_pc s ! i \<noteq> FwdReturned"
            by simp_all
          then have iN: "i < numWorkers c" by (simp add: w)
          let ?s' = "s\<lparr>fwd_pc := (fwd_pc s)[i := FwdReturned], wg := wg s - 1\<rparr>"
          from workers iN have cls: "primeNumStream_closed s ! i"
            by (simp add: w list_all_length)
          from well_formed_wg_pos [OF wf iN i(2)] have pos: "\<not> wg s - 1 < 0" by simp
          have less: "todo ?s' < todo s"
            using live_fwds_update [OF i(1), of FwdReturned] i(2) by (simp add: todo_def)
          show ?thesis
          proof (cases "fwd_pc s ! i")
            case FwdRange
            with td GenReturned ProjReturned None Some have a: "a = FwdEnd i"
              by (simp add: teardown_def)
            from FwdRange i(1) cls pos np have "step c (FwdEnd i) s = Some ?s'"
              by (simp add: step_def fwd_end_def fwd_return_def)
            with less np dn a show ?thesis by simp
          next
            case (FwdSelect v)
            with td GenReturned ProjReturned None Some have a: "a = FwdDone i"
              by (simp add: teardown_def)
            from FwdSelect i(1) pos np dn have "step c (FwdDone i) s = Some ?s'"
              by (simp add: step_def fwd_done_def fwd_return_def)
            with less np dn a show ?thesis by simp
          next
            case FwdReturned
            with i(2) show ?thesis by simp
          qed
        next
          case fnone: None
          from first_where_None [OF fnone]
          have "list_all (\<lambda>p. p = FwdReturned) (fwd_pc s)" by simp
          then have zero: "wg s = 0" by (simp add: w(11) live_fwds_zero)
          show ?thesis
          proof (cases "closer_pc s")
            case CloserWait
            with td GenReturned ProjReturned None fnone have a: "a = CloserClose"
              by (simp add: teardown_def)
            from CloserWait zero np
            have "step c CloserClose s =
                Some (s\<lparr>closer_pc := CloserReturned, reducedStream_closed := True,
                  reducedStream_closes := Suc (reducedStream_closes s)\<rparr>)"
              by (simp add: step_def closer_close_def w)
            with CloserWait np dn a show ?thesis by (simp add: todo_def)
          next
            case CloserReturned
            with td GenReturned ProjReturned None fnone show ?thesis
              by (simp add: teardown_def)
          qed
        qed
      qed
    qed
  qed
qed

lemma teardown_None:
  assumes wf: "well_formed c s" and dn: "done_closed s" and td: "teardown s = None"
  shows "finished s"
proof -
  note w = well_formedD [OF wf]
  from td have g: "gen_pc s = GenReturned"
    by (cases "gen_pc s") (simp_all add: teardown_def)
  with td have p: "proj_pc s = ProjReturned"
    by (cases "proj_pc s") (simp_all add: teardown_def)
  from td g p have wn: "first_where (\<lambda>p. p \<noteq> WorkerReturned) (worker_pc s) = None"
    by (cases "first_where (\<lambda>p. p \<noteq> WorkerReturned) (worker_pc s)")
      (simp_all add: teardown_def split: worker_pc.splits)
  with td g p have fn: "first_where (\<lambda>p. p \<noteq> FwdReturned) (fwd_pc s) = None"
    by (cases "first_where (\<lambda>p. p \<noteq> FwdReturned) (fwd_pc s)")
      (simp_all add: teardown_def split: fwd_pc.splits)
  with td g p wn have cl: "closer_pc s = CloserReturned"
    by (cases "closer_pc s") (simp_all add: teardown_def)
  from first_where_None [OF wn] have workers: "list_all (\<lambda>p. p = WorkerReturned) (worker_pc s)"
    by simp
  from first_where_None [OF fn] have fwds: "list_all (\<lambda>p. p = FwdReturned) (fwd_pc s)"
    by simp
  from dn have m: "main_pc s = MainReturned" by (simp add: w)
  then have cn: "cons_pc s = ConsReturned" by (rule w(14))
  from workers have "list_all (\<lambda>b. b) (primeNumStream_closed s)"
    by (simp add: w list.pred_map comp_def)
  with g p workers fwds cl m cn dn show ?thesis by (simp add: finished_def w)
qed

lemma drain_finishes:
  assumes src: "\<And>k. \<exists>v. getValue c k = Inr v"
  shows "well_formed c s \<Longrightarrow> done_closed s \<Longrightarrow> panicked s = None \<Longrightarrow> todo s \<le> n \<Longrightarrow>
    \<exists>s'. drain c n s = Some s' \<and> finished s' \<and> panicked s' = None"
proof (induction n arbitrary: s)
  case 0
  show ?case
  proof (cases "teardown s")
    case None
    with 0 teardown_None show ?thesis by simp
  next
    case (Some a)
    from teardown_step [OF "0.prems"(1,2,3) src Some] "0.prems"(4) show ?thesis by auto
  qed
next
  case (Suc n)
  show ?case
  proof (cases "teardown s")
    case None
    with Suc.prems teardown_None show ?thesis by simp
  next
    case (Some a)
    from teardown_step [OF Suc.prems(1,2,3) src Some] obtain s1
      where s1: "step c a s = Some s1" "todo s1 < todo s" "panicked s1 = None" "done_closed s1"
      by blast
    from Suc.prems(1) s1(1) have "well_formed c s1" by (rule well_formed_step)
    moreover from s1(2) Suc.prems(4) have "todo s1 \<le> n" by simp
    ultimately have "\<exists>s'. drain c n s1 = Some s' \<and> finished s' \<and> panicked s' = None"
      using s1(3,4) by (intro Suc.IH)
    with Some s1(1) show ?thesis by simp
  qed
qed

lemma todo_bound: "well_formed c s \<Longrightarrow> todo s \<le> 2 * numWorkers c + 4"
proof -
  assume wf: "well_formed c s"
  note w = well_formedD [OF wf]
  have "gen_todo (gen_pc s) \<le> 2" by (cases "gen_pc s") simp_all
  moreover have "length (filter (\<lambda>p. p \<noteq> WorkerReturned) (worker_pc s)) \<le> numWorkers c"
    using length_filter_le [of _ "worker_pc s"] by (simp add: w)
  moreover have "live_fwds (fwd_pc s) \<le> numWorkers c"
    using length_filter_le [of _ "fwd_pc s"] by (simp add: w live_fwds_def)
  ultimately show ?thesis by (simp add: todo_def)
qed

lemma drain_exec:
  "drain c n s = Some s' \<Longrightarrow> \<exists>as. length as \<le> n \<and> exec c as s = Some s'"
proof (induction n arbitrary: s)
  case 0
  then have "exec c [] s = Some s'" by simp
  then show ?case by (intro exI [of _ "[]"]) simp
next
  case (Suc n)
  show ?case
  proof (cases "teardown s")
    case None
    with Suc.prems have "exec c [] s = Some s'" by simp
    then show ?thesis by (intro exI [of _ "[]"]) simp
  next
    case (Some a)
    with Suc.prems obtain s1 where s1: "step c a s = Some s1" "drain c n s1 = Some s'"
      by (auto split: option.splits)
    from Suc.IH [OF s1(2)] obtain as where as: "length as \<le> n" "exec c as s1 = Some s'"
      by blast
    with s1(1) have "length (a # as) \<le> Suc n \<and> exec c (a # as) s = Some s'" by simp
    then show ?thesis by blast
  qed
qed

subsection \<open>A run to the end\<close>

lemma quiet_init: "0 < numWorkers c \<Longrightarrow> quiet 0 (init c)"
  by (simp add: quiet_def init_def)

lemma quiet_one_item:
  assumes "quiet j s" and "getValue c j = Inr (Int64 n)" and "accept c n"
    and "int j < numPrimes c"
  shows "\<exists>s'. exec c one_item s = Some s' \<and> quiet (Suc j) s'"
proof -
  from assms(1) have q: "panicked s = None" "gen_pc s = GenLoop" "proj_pc s = ProjRange"
    "0 < length (worker_pc s)" "worker_pc s ! 0 = WorkerRange"
    "0 < length (fwd_pc s)" "fwd_pc s ! 0 = FwdRange"
    "cons_pc s = ConsLoop (int j)" "main_pc s = MainRange"
    "\<not> valStream_closed s" "\<not> intStream_closed s" "\<not> primeNumStream_closed s ! 0"
    "\<not> reducedStream_closed s" "\<not> result_closed s" "calls s = j" "length (result_sent s) = j"
    by (simp_all add: quiet_def)
  show ?thesis
    using q assms(2,3,4) by (simp add: one_item_def step_defs quiet_def)
qed

lemma quiet_items:
  assumes "\<And>k. k < j + m \<Longrightarrow> \<exists>n. getValue c k = Inr (Int64 n) \<and> accept c n"
    and "int (j + m) \<le> numPrimes c"
  shows "quiet j s \<Longrightarrow> \<exists>s'. exec c (concat (replicate m one_item)) s = Some s' \<and> quiet (j + m) s'"
  using assms
proof (induction m arbitrary: j s)
  case 0
  then show ?case by simp
next
  case (Suc m)
  from Suc.prems(2) [of j] obtain n where n: "getValue c j = Inr (Int64 n)" "accept c n"
    by auto
  from Suc.prems(3) have "int j < numPrimes c" by simp
  from quiet_one_item [OF Suc.prems(1) n this] obtain s1
    where s1: "exec c one_item s = Some s1" "quiet (Suc j) s1"
    by blast
  have "\<exists>s'. exec c (concat (replicate m one_item)) s1 = Some s' \<and> quiet (Suc j + m) s'"
  proof (rule Suc.IH [OF s1(2)])
    fix k assume "k < Suc j + m"
    then show "\<exists>n. getValue c k = Inr (Int64 n) \<and> accept c n"
      using Suc.prems(2) [of k] by simp
  next
    from Suc.prems(3) show "int (Suc j + m) \<le> numPrimes c" by simp
  qed
  with s1(1) show ?case by (simp add: exec_append)
qed

lemma quiet_close:
  assumes "quiet j s" and "int j = numPrimes c"
  shows "\<exists>s'. exec c [ConsTest] s = Some s' \<and> result_closed s' \<and>
    int (length (result_sent s')) = numPrimes c \<and> panicked s' = None"
  using assms by (simp add: quiet_def step_defs)

lemma complete_run:
  assumes "0 < numWorkers c" and "0 \<le> numPrimes c"
    and "\<And>k. k < nat (numPrimes c) \<Longrightarrow> \<exists>n. getValue c k = Inr (Int64 n) \<and> accept c n"
  shows "\<exists>s'. exec c (concat (replicate (nat (numPrimes c)) one_item) @ [ConsTest]) (init c) =
      Some s' \<and> result_closed s' \<and> int (length (result_sent s')) = numPrimes c \<and>
      panicked s' = None"
proof -
  from assms(1) have "quiet 0 (init c)" by (rule quiet_init)
  moreover have "\<exists>n. getValue c k = Inr (Int64 n) \<and> accept c n"
    if "k < 0 + nat (numPrimes c)" for k
    using that assms(3) by simp
  moreover have "int (0 + nat (numPrimes c)) \<le> numPrimes c" using assms(2) by simp
  ultimately obtain s1
    where s1: "exec c (concat (replicate (nat (numPrimes c)) one_item)) (init c) = Some s1"
      "quiet (0 + nat (numPrimes c)) s1"
    using quiet_items [of 0 "nat (numPrimes c)" c "init c"] by blast
  from s1(2) assms(2) have "quiet (nat (numPrimes c)) s1" "int (nat (numPrimes c)) = numPrimes c"
    by simp_all
  from quiet_close [OF this] s1(1) show ?thesis by (simp add: exec_append)
qed

subsection \<open>Rounds without end\<close>

lemma idle_lap:
  assumes "idle s" and "getValue c (calls s) = Inr (Int64 n)" and "\<not> accept c n"
  shows "\<exists>s'. exec c lap s = Some s' \<and> idle s' \<and> calls s' = Suc (calls s) \<and>
    done_closed s' = done_closed s"
proof -
  from assms(1) have q: "panicked s = None" "gen_pc s = GenLoop" "proj_pc s = ProjRange"
    "0 < length (worker_pc s)" "worker_pc s ! 0 = WorkerRange"
    "\<not> valStream_closed s" "\<not> intStream_closed s"
    by (simp_all add: idle_def)
  show ?thesis
    using q assms(2,3) by (simp add: lap_def step_defs idle_def)
qed

lemma idle_laps:
  assumes "\<And>k. \<exists>n. getValue c k = Inr (Int64 n) \<and> \<not> accept c n"
  shows "idle s \<Longrightarrow> \<exists>s'. exec c (concat (replicate m lap)) s = Some s' \<and> idle s' \<and>
    calls s' = calls s + m \<and> done_closed s' = done_closed s"
proof (induction m arbitrary: s)
  case 0
  then show ?case by simp
next
  case (Suc m)
  from assms [of "calls s"] obtain n
    where n: "getValue c (calls s) = Inr (Int64 n)" "\<not> accept c n"
    by blast
  from idle_lap [OF Suc.prems n] obtain s1
    where s1: "exec c lap s = Some s1" "idle s1" "calls s1 = Suc (calls s)"
      "done_closed s1 = done_closed s"
    by blast
  from Suc.IH [OF s1(2)] obtain s'
    where s': "exec c (concat (replicate m lap)) s1 = Some s'" "idle s'"
      "calls s' = calls s1 + m" "done_closed s' = done_closed s1"
    by blast
  with s1 show ?case by (simp add: exec_append)
qed

section \<open>The claims\<close>

text \<open>
  C1. For every target count \<open>K \<ge> 0\<close> the Bounded Consumer (\<open>createResultStream\<close>) emits
  exactly \<open>K\<close> items on its output stream and then closes it, when the stream it reads
  delivers that many; for \<open>K = 0\<close> it closes the output at once without receiving anything.

  In every state the pipeline can reach: the consumer has sent at most \<open>K\<close> items; its output
  is closed only when it has sent exactly \<open>K\<close>; as long as the output is open it is never
  stuck anywhere but in its receive from the merged stream, and there it takes the item a
  forwarder offers; and for \<open>K = 0\<close> it is never in that receive, has sent nothing, and its
  only step closes the output. And when there is a worker and the first \<open>K\<close> values of the
  source qualify, the run that takes them one after the other through worker 0 ends with
  the output closed after exactly \<open>K\<close> items.
\<close>

theorem createResultStream_exact_count:
  assumes "exec c sched (init c) = Some s" and "0 \<le> numPrimes c"
  shows "int (length (result_sent s)) \<le> numPrimes c \<and>
    (result_closed s \<longrightarrow> int (length (result_sent s)) = numPrimes c) \<and>
    (\<not> result_closed s \<and> panicked s = None \<and> \<not> cons_receiving (cons_pc s) \<longrightarrow>
       step c ConsTest s \<noteq> None \<or> step c ConsSend s \<noteq> None) \<and>
    (\<forall>i v k. cons_pc s = ConsRecv k \<and> i < numWorkers c \<and> fwd_pc s ! i = FwdSelect v \<and>
       panicked s = None \<longrightarrow>
       map_option cons_pc (step c (FwdSend i) s) = Some (ConsSelect k v)) \<and>
    (numPrimes c = 0 \<longrightarrow>
       \<not> cons_receiving (cons_pc s) \<and> result_sent s = [] \<and>
       (\<not> result_closed s \<and> panicked s = None \<longrightarrow>
          map_option result_closed (step c ConsTest s) = Some True)) \<and>
    (0 < numWorkers c \<and>
     (\<forall>k<nat (numPrimes c). \<exists>n. getValue c k = Inr (Int64 n) \<and> accept c n) \<longrightarrow>
       (\<exists>s'. exec c (concat (replicate (nat (numPrimes c)) one_item) @ [ConsTest]) (init c) =
          Some s' \<and> result_closed s' \<and> int (length (result_sent s')) = numPrimes c \<and>
          panicked s' = None))"
proof -
  from assms(1) have i: "pipeline_inv c s" by (rule pipeline_inv_exec)
  then have wf: "well_formed c s" and cnt: "cons_counts (numPrimes c) (cons_pc s) (result_sent s)"
    by (simp_all add: pipeline_inv_def counted_def)
  note w = well_formedD [OF wf]
  have len: "int (length (result_sent s)) \<le> numPrimes c"
    using cnt assms(2) by (cases "cons_pc s") simp_all
  have closed: "int (length (result_sent s)) = numPrimes c" if "result_closed s"
    using that cnt assms(2) by (simp add: w)
  have progress: "step c ConsTest s \<noteq> None \<or> step c ConsSend s \<noteq> None"
    if "\<not> result_closed s" "panicked s = None" "\<not> cons_receiving (cons_pc s)"
    using that w(13)
    by (cases "cons_pc s") (simp_all add: w step_def cons_test_def cons_return_def cons_send_def)
  have take: "map_option cons_pc (step c (FwdSend i) s) = Some (ConsSelect k v)"
    if "cons_pc s = ConsRecv k" "i < numWorkers c" "fwd_pc s ! i = FwdSelect v"
      "panicked s = None" for i v k
  proof -
    from well_formed_closer_waits [OF wf that(2)] that(3) have "closer_pc s = CloserWait"
      by simp
    with that show ?thesis by (simp add: w step_def fwd_send_def)
  qed
  have zero: "\<not> cons_receiving (cons_pc s) \<and> result_sent s = [] \<and>
       (\<not> result_closed s \<and> panicked s = None \<longrightarrow>
          map_option result_closed (step c ConsTest s) = Some True)"
    if "numPrimes c = 0"
    using that cnt
    by (cases "cons_pc s") (simp_all add: w step_def cons_test_def cons_return_def)
  have complete: "\<exists>s'. exec c (concat (replicate (nat (numPrimes c)) one_item) @ [ConsTest])
        (init c) = Some s' \<and> result_closed s' \<and>
      int (length (result_sent s')) = numPrimes c \<and> panicked s' = None"
    if "0 < numWorkers c \<and>
      (\<forall>k<nat (numPrimes c). \<exists>n. getValue c k = Inr (Int64 n) \<and> accept c n)"
    using that assms(2) by (intro complete_run) simp_all
  from len closed progress take zero complete show ?thesis by blast
qed

theorem createResultStream_exact_count_witness:
  "exec (sevens 2 1) (one_item @ one_item @ [ConsTest]) (init (sevens 2 1)) \<noteq> None \<and>
   (0::int) \<le> numPrimes (sevens 2 1) \<and>
   result_closed (the (exec (sevens 2 1) (one_item @ one_item @ [ConsTest]) (init (sevens 2 1)))) \<and>
   result_sent (the (exec (sevens 2 1) (one_item @ one_item @ [ConsTest]) (init (sevens 2 1))))
     = [Int64 7, Int64 7] \<and>
   int (length (result_sent
     (the (exec (sevens 2 1) (one_item @ one_item @ [ConsTest]) (init (sevens 2 1)))))) =
     numPrimes (sevens 2 1)"
proof -
  have run: "exec (sevens 2 1) (one_item @ one_item @ [ConsTest]) (init (sevens 2 1)) \<noteq> None"
    and closed: "result_closed
      (the (exec (sevens 2 1) (one_item @ one_item @ [ConsTest]) (init (sevens 2 1))))"
    and sent: "result_sent
      (the (exec (sevens 2 1) (one_item @ one_item @ [ConsTest]) (init (sevens 2 1))))
       = [Int64 7, Int64 7]"
    by (simp_all add: run_simps)
  have k: "(0::int) \<le> numPrimes (sevens 2 1)" by (simp add: sevens_def)
  from run have some: "exec (sevens 2 1) (one_item @ one_item @ [ConsTest]) (init (sevens 2 1)) =
      Some (the (exec (sevens 2 1) (one_item @ one_item @ [ConsTest]) (init (sevens 2 1))))"
    by simp
  from createResultStream_exact_count [OF some k] closed
  have "int (length (result_sent
     (the (exec (sevens 2 1) (one_item @ one_item @ [ConsTest]) (init (sevens 2 1)))))) =
     numPrimes (sevens 2 1)"
    by blast
  with run k closed sent show ?thesis by blast
qed

text \<open>
  C2. For every worker, the sequence of items on that worker's output stream equals the
  ordered subsequence of the items it read from the shared typed stream for which the
  predicate holds: an item read appears in the output if and only if the predicate holds for
  it, in the order read.

  This fails for the last accepted item when cancellation fires: lines 112-113 return
  without sending it. With \<open>K = 0\<close> and one worker, \<open>main\<close> closes \<open>done\<close> at once; the worker
  still reads 7, accepts it, and then takes the \<open>done\<close> case: it has read \<open>[7]\<close> and its output
  stays empty.
\<close>

theorem primeNumberWorker_drops_counterexample:
  "exec (sevens 0 1) cancelled_early (init (sevens 0 1)) \<noteq> None \<and>
   worker_read (the (exec (sevens 0 1) cancelled_early (init (sevens 0 1)))) ! 0 = [7] \<and>
   accept (sevens 0 1) 7 \<and>
   worker_pc (the (exec (sevens 0 1) cancelled_early (init (sevens 0 1)))) ! 0 = WorkerReturned \<and>
   primeNumStream_sent (the (exec (sevens 0 1) cancelled_early (init (sevens 0 1)))) ! 0 = [] \<and>
   primeNumStream_sent (the (exec (sevens 0 1) cancelled_early (init (sevens 0 1)))) ! 0 \<noteq>
     filter (accept (sevens 0 1))
       (worker_read (the (exec (sevens 0 1) cancelled_early (init (sevens 0 1)))) ! 0)"
  by (simp add: run_simps cancelled_early_def)

text \<open>
  C2, amended. The output of a worker is, in order, the accepted items among those it read,
  without the last one at most: the two sequences are equal while the worker waits for
  input; the last accepted item is missing while the worker offers it in its \<open>select\<close>, and
  for good when the worker then takes the \<open>done\<close> case. Every item of the output was read by
  the worker and satisfies the predicate.
\<close>

theorem primeNumberWorker_output:
  assumes "exec c sched (init c) = Some s" and "i < numWorkers c"
  shows "prefix (primeNumStream_sent s ! i) (filter (accept c) (worker_read s ! i)) \<and>
    length (filter (accept c) (worker_read s ! i)) \<le> length (primeNumStream_sent s ! i) + 1 \<and>
    (worker_pc s ! i = WorkerRange \<longrightarrow>
       primeNumStream_sent s ! i = filter (accept c) (worker_read s ! i)) \<and>
    (\<forall>n. worker_pc s ! i = WorkerSelect n \<longrightarrow>
       primeNumStream_sent s ! i @ [n] = filter (accept c) (worker_read s ! i)) \<and>
    (\<forall>n\<in>set (primeNumStream_sent s ! i). accept c n \<and> n \<in> set (worker_read s ! i))"
proof -
  from assms(1) have "pipeline_inv c s" by (rule pipeline_inv_exec)
  with assms(2) have holds: "worker_holds (accept c) (worker_pc s ! i) (worker_read s ! i)
      (primeNumStream_sent s ! i)"
    by (simp add: pipeline_inv_def filtered_def)
  let ?out = "primeNumStream_sent s ! i" and ?acc = "filter (accept c) (worker_read s ! i)"
  from holds have shape: "?acc = ?out \<or> (\<exists>n. ?acc = ?out @ [n])"
    by (cases "worker_pc s ! i") simp_all
  then have pre: "prefix ?out ?acc"
    by (elim disjE exE) simp_all
  from shape have len: "length ?acc \<le> length ?out + 1"
    by (elim disjE exE) simp_all
  from holds have waiting: "?out = ?acc" if "worker_pc s ! i = WorkerRange"
    using that by simp
  from holds have offering: "?out @ [n] = ?acc" if "worker_pc s ! i = WorkerSelect n" for n
    using that by simp
  have mem: "accept c n \<and> n \<in> set (worker_read s ! i)" if "n \<in> set ?out" for n
  proof -
    from pre that have "n \<in> set ?acc"
      by (rule set_mono_prefix [THEN subsetD])
    then show ?thesis by simp
  qed
  from pre len waiting offering mem show ?thesis by blast
qed

theorem primeNumberWorker_output_witness:
  "exec (sevens 2 1) one_item (init (sevens 2 1)) \<noteq> None \<and>
   (0::nat) < numWorkers (sevens 2 1) \<and>
   worker_pc (the (exec (sevens 2 1) one_item (init (sevens 2 1)))) ! 0 = WorkerRange \<and>
   worker_read (the (exec (sevens 2 1) one_item (init (sevens 2 1)))) ! 0 = [7] \<and>
   primeNumStream_sent (the (exec (sevens 2 1) one_item (init (sevens 2 1)))) ! 0 =
     filter (accept (sevens 2 1))
       (worker_read (the (exec (sevens 2 1) one_item (init (sevens 2 1)))) ! 0)"
proof -
  have run: "exec (sevens 2 1) one_item (init (sevens 2 1)) \<noteq> None"
    and pc: "worker_pc (the (exec (sevens 2 1) one_item (init (sevens 2 1)))) ! 0 = WorkerRange"
    and rd: "worker_read (the (exec (sevens 2 1) one_item (init (sevens 2 1)))) ! 0 = [7]"
    by (simp_all add: run_simps)
  have n: "(0::nat) < numWorkers (sevens 2 1)" by (simp add: sevens_def)
  from run have some: "exec (sevens 2 1) one_item (init (sevens 2 1)) =
      Some (the (exec (sevens 2 1) one_item (init (sevens 2 1))))"
    by simp
  from primeNumberWorker_output [OF some n] pc
  have "primeNumStream_sent (the (exec (sevens 2 1) one_item (init (sevens 2 1)))) ! 0 =
     filter (accept (sevens 2 1))
       (worker_read (the (exec (sevens 2 1) one_item (init (sevens 2 1)))) ! 0)"
    by blast
  with run n pc rd show ?thesis by blast
qed

text \<open>
  C3. The merged stream produced by \<open>reduceWorkers\<close> is closed exactly once, and only after
  all \<open>N\<close> forwarding tasks have finished (the wait-group counter has reached zero); no send
  on the merged stream occurs after it is closed.

  In every state the pipeline can reach: \<open>close(reducedStream)\<close> has run at most once, and once
  exactly when the stream is closed; the counter of the wait group is the number of
  forwarders that have not returned; when the stream is closed the counter is zero and
  every forwarder has returned; no \<open>close\<close> of a closed channel and no send on a closed
  channel has happened; and no step from a state where the stream is closed sends on it or
  closes it again.
\<close>

theorem reduceWorkers_closes_once:
  assumes "exec c sched (init c) = Some s"
  shows "reducedStream_closes s \<le> 1 \<and>
    (reducedStream_closed s \<longleftrightarrow> reducedStream_closes s = 1) \<and>
    wg s = int (length (filter (\<lambda>p. p \<noteq> FwdReturned) (fwd_pc s))) \<and>
    (reducedStream_closed s \<longrightarrow> wg s = 0 \<and> list_all (\<lambda>p. p = FwdReturned) (fwd_pc s)) \<and>
    panicked s \<noteq> Some CloseOfClosed \<and> panicked s \<noteq> Some SendOnClosed \<and>
    (\<forall>a s'. reducedStream_closed s \<and> step c a s = Some s' \<longrightarrow>
       reducedStream_sent s' = reducedStream_sent s \<and> reducedStream_closes s' = 1 \<and>
       reducedStream_closed s')"
proof -
  from assms have wf: "well_formed c s" by (rule well_formed_exec)
  note w = well_formedD [OF wf]
  have once: "reducedStream_closes s \<le> 1"
    and iff: "reducedStream_closed s \<longleftrightarrow> reducedStream_closes s = 1"
    by (simp_all add: w)
  have count: "wg s = int (length (filter (\<lambda>p. p \<noteq> FwdReturned) (fwd_pc s)))"
    using w(11) by (simp add: live_fwds_def)
  have after: "wg s = 0 \<and> list_all (\<lambda>p. p = FwdReturned) (fwd_pc s)"
    if "reducedStream_closed s"
  proof -
    from that have "live_fwds (fwd_pc s) = 0" by (simp add: w)
    then show ?thesis by (simp add: w(11) live_fwds_zero)
  qed
  have frame: "reducedStream_sent s' = reducedStream_sent s \<and> reducedStream_closes s' = 1 \<and>
       reducedStream_closed s'"
    if "reducedStream_closed s" "step c a s = Some s'" for a s'
  proof -
    from that(1) have ret: "closer_pc s = CloserReturned" by (simp add: w)
    from that(2) have "transition c s a s'" by (rule step_transition)
    then show ?thesis using ret by cases (simp_all add: w)
  qed
  from once iff count after w(17,18) frame show ?thesis by blast
qed

theorem reduceWorkers_closes_once_witness:
  "exec (sevens 0 1) torn_down (init (sevens 0 1)) \<noteq> None \<and>
   reducedStream_closed (the (exec (sevens 0 1) torn_down (init (sevens 0 1)))) \<and>
   reducedStream_closes (the (exec (sevens 0 1) torn_down (init (sevens 0 1)))) = 1 \<and>
   wg (the (exec (sevens 0 1) torn_down (init (sevens 0 1)))) = 0"
proof -
  have run: "exec (sevens 0 1) torn_down (init (sevens 0 1)) \<noteq> None"
    and closed: "reducedStream_closed (the (exec (sevens 0 1) torn_down (init (sevens 0 1))))"
    by (simp_all add: run_simps torn_down_def)
  from run have some: "exec (sevens 0 1) torn_down (init (sevens 0 1)) =
      Some (the (exec (sevens 0 1) torn_down (init (sevens 0 1))))"
    by simp
  from reduceWorkers_closes_once [OF some] closed run show ?thesis by blast
qed

text \<open>
  C4. After the top-level driver closes the cancellation (\<open>done\<close>) channel, every stage's
  execution unit terminates in finitely many steps and every opened stream reaches closed
  exactly once; in particular, every blocking send or receive any stage performs is paired
  in a single atomic \<open>select\<close> with a wait on the cancellation signal, so no execution unit
  can remain blocked after cancellation fires.

  Only the sends are in a \<open>select\<close> with \<open>done\<close>. The receives are the \<open>range\<close> loops (lines 81,
  108, 143) and the operand \<open><-valueStream\<close> (line 66), which wait for the channel alone.
  With \<open>K = 0\<close> and one worker, \<open>main\<close> closes \<open>done\<close> at once; the worker waits in
  \<open>range intStream\<close>, and with \<open>done\<close> closed it still has no step: it cannot return, and
  nothing is offered to it. It is released only when the projection closes \<open>intStream\<close>.
  Nor is the number of steps bounded: a \<open>select\<close> whose send case is ready may take it
  although \<open>done\<close> is closed, so the generator, the projection and the worker can go on
  handing over rejected values (two rounds are run below).
\<close>

theorem cancellation_blocked_receive_counterexample:
  "exec (eights 0 1) cancel (init (eights 0 1)) \<noteq> None \<and>
   done_closed (the (exec (eights 0 1) cancel (init (eights 0 1)))) \<and>
   worker_pc (the (exec (eights 0 1) cancel (init (eights 0 1)))) ! 0 = WorkerRange \<and>
   step (eights 0 1) (WorkerEnd 0) (the (exec (eights 0 1) cancel (init (eights 0 1)))) = None \<and>
   step (eights 0 1) (WorkerDone 0) (the (exec (eights 0 1) cancel (init (eights 0 1)))) = None \<and>
   step (eights 0 1) (WorkerSend 0) (the (exec (eights 0 1) cancel (init (eights 0 1)))) = None \<and>
   step (eights 0 1) (ProjSend 0) (the (exec (eights 0 1) cancel (init (eights 0 1)))) = None \<and>
   exec (eights 0 1) (cancel @ lap @ lap) (init (eights 0 1)) \<noteq> None \<and>
   done_closed (the (exec (eights 0 1) (cancel @ lap @ lap) (init (eights 0 1)))) \<and>
   gen_pc (the (exec (eights 0 1) (cancel @ lap @ lap) (init (eights 0 1)))) = GenLoop \<and>
   proj_pc (the (exec (eights 0 1) (cancel @ lap @ lap) (init (eights 0 1)))) = ProjRange \<and>
   worker_pc (the (exec (eights 0 1) (cancel @ lap @ lap) (init (eights 0 1)))) ! 0 =
     WorkerRange \<and>
   calls (the (exec (eights 0 1) (cancel @ lap @ lap) (init (eights 0 1)))) = 2"
  by (simp add: eights_def cancel_def lap_def init_def step_defs not_ProbablyPrime0_8)

text \<open>
  C4, amended. After the top-level driver has closed the cancellation channel, the
  consumer and the driver have returned, and the remaining stages can always be brought to
  an end: from every state the pipeline can reach with \<open>done\<close> closed (and a value source
  that does not panic), at most \<open>2 N + 4\<close> further steps, in which every \<open>select\<close> takes the
  \<open>done\<close> case and every \<open>range\<close> ends, lead to a state where every execution unit has
  returned and every stream is closed, without a panic, so each stream is closed once. Every
  blocking send is in a \<open>select\<close> with \<open>done\<close>: a stage that holds a value can return at once.
  The blocking receives are not: a stage waiting in its \<open>range\<close> returns exactly when the stage
  before it has returned and closed its stream, and the closer when every forwarder has
  returned. No number of steps bounds every schedule: as long as the source supplies
  values that the workers reject, the generator, the projection and a worker can hand them
  on for any number of rounds although \<open>done\<close> is closed.
\<close>

theorem cancellation_tears_down:
  assumes "exec c sched (init c) = Some s" and "done_closed s" and "panicked s = None"
    and "\<forall>k. \<exists>v. getValue c k = Inr v"
  shows "cons_pc s = ConsReturned \<and> main_pc s = MainReturned \<and>
    todo s \<le> 2 * numWorkers c + 4 \<and>
    (\<exists>s'. drain c (todo s) s = Some s' \<and> finished s' \<and> panicked s' = None \<and>
       (\<exists>more. length more \<le> todo s \<and> exec c (sched @ more) (init c) = Some s')) \<and>
    (\<forall>v. gen_pc s = GenSelect v \<longrightarrow> step c GenDone s \<noteq> None) \<and>
    (\<forall>n. proj_pc s = ProjSelect n \<longrightarrow> step c ProjDone s \<noteq> None) \<and>
    (\<forall>i n. i < numWorkers c \<and> worker_pc s ! i = WorkerSelect n \<longrightarrow>
       step c (WorkerDone i) s \<noteq> None) \<and>
    (\<forall>i v. i < numWorkers c \<and> fwd_pc s ! i = FwdSelect v \<longrightarrow> step c (FwdDone i) s \<noteq> None) \<and>
    (proj_pc s = ProjRange \<longrightarrow>
       (step c ProjEnd s \<noteq> None \<longleftrightarrow> gen_pc s = GenReturned) \<and> step c ProjDone s = None) \<and>
    (\<forall>i. i < numWorkers c \<and> worker_pc s ! i = WorkerRange \<longrightarrow>
       (step c (WorkerEnd i) s \<noteq> None \<longleftrightarrow> proj_pc s = ProjReturned) \<and>
       step c (WorkerDone i) s = None) \<and>
    (\<forall>i. i < numWorkers c \<and> fwd_pc s ! i = FwdRange \<longrightarrow>
       (step c (FwdEnd i) s \<noteq> None \<longleftrightarrow> worker_pc s ! i = WorkerReturned) \<and>
       step c (FwdDone i) s = None) \<and>
    (closer_pc s = CloserWait \<longrightarrow>
       (step c CloserClose s \<noteq> None \<longleftrightarrow> list_all (\<lambda>p. p = FwdReturned) (fwd_pc s))) \<and>
    (idle s \<and> (\<forall>k. \<exists>n. getValue c k = Inr (Int64 n) \<and> \<not> accept c n) \<longrightarrow>
       (\<forall>m. \<exists>s'. exec c (concat (replicate m lap)) s = Some s' \<and> done_closed s' \<and>
          idle s' \<and> calls s' = calls s + m))"
proof -
  from assms(1) have wf: "well_formed c s" by (rule well_formed_exec)
  note w = well_formedD [OF wf]
  from assms(2) have m: "main_pc s = MainReturned" by (simp add: w)
  then have cn: "cons_pc s = ConsReturned" by (rule w(14))
  have bound: "todo s \<le> 2 * numWorkers c + 4" using wf by (rule todo_bound)
  have src: "\<exists>v. getValue c k = Inr v" for k using assms(4) by blast
  from drain_finishes [OF src wf assms(2,3) order_refl]
  obtain s' where s': "drain c (todo s) s = Some s'" "finished s'" "panicked s' = None"
    by blast
  from drain_exec [OF s'(1)] obtain more
    where more: "length more \<le> todo s" "exec c more s = Some s'"
    by blast
  from assms(1) more(2) have "exec c (sched @ more) (init c) = Some s'"
    by (simp add: exec_append)
  with s' more(1) have ends: "\<exists>s'. drain c (todo s) s = Some s' \<and> finished s' \<and>
      panicked s' = None \<and>
      (\<exists>more. length more \<le> todo s \<and> exec c (sched @ more) (init c) = Some s')"
    by blast
  have gen: "step c GenDone s \<noteq> None" if "gen_pc s = GenSelect v" for v
    using that assms(2,3) by (simp add: step_def gen_done_def w)
  have proj: "step c ProjDone s \<noteq> None" if "proj_pc s = ProjSelect n" for n
    using that assms(2,3) by (simp add: step_def proj_done_def w)
  have worker: "step c (WorkerDone i) s \<noteq> None"
    if "i < numWorkers c \<and> worker_pc s ! i = WorkerSelect n" for i n
    using that assms(2,3) by (simp add: step_def worker_done_def worker_return_def w)
  have fwd: "step c (FwdDone i) s \<noteq> None"
    if "i < numWorkers c \<and> fwd_pc s ! i = FwdSelect v" for i v
    using that assms(2,3) well_formed_wg_pos [OF wf, of i]
    by (simp add: step_def fwd_done_def fwd_return_def w)
  have proj_range: "(step c ProjEnd s \<noteq> None \<longleftrightarrow> gen_pc s = GenReturned) \<and>
      step c ProjDone s = None"
    if "proj_pc s = ProjRange"
    using that assms(3) by (simp add: step_def proj_end_def proj_done_def w)
  have worker_range: "(step c (WorkerEnd i) s \<noteq> None \<longleftrightarrow> proj_pc s = ProjReturned) \<and>
      step c (WorkerDone i) s = None"
    if "i < numWorkers c \<and> worker_pc s ! i = WorkerRange" for i
    using that assms(3)
    by (simp add: step_def worker_end_def worker_done_def worker_return_def w)
  have fwd_range: "(step c (FwdEnd i) s \<noteq> None \<longleftrightarrow> worker_pc s ! i = WorkerReturned) \<and>
      step c (FwdDone i) s = None"
    if "i < numWorkers c \<and> fwd_pc s ! i = FwdRange" for i
    using that assms(3) well_formed_wg_pos [OF wf, of i]
    by (simp add: step_def fwd_end_def fwd_done_def fwd_return_def w)
  have closer: "step c CloserClose s \<noteq> None \<longleftrightarrow> list_all (\<lambda>p. p = FwdReturned) (fwd_pc s)"
    if "closer_pc s = CloserWait"
    using that assms(3) by (simp add: step_def closer_close_def w live_fwds_zero)
  have rounds: "\<forall>m. \<exists>s'. exec c (concat (replicate m lap)) s = Some s' \<and> done_closed s' \<and>
      idle s' \<and> calls s' = calls s + m"
    if "idle s \<and> (\<forall>k. \<exists>n. getValue c k = Inr (Int64 n) \<and> \<not> accept c n)"
  proof
    fix m
    from that have "\<exists>n. getValue c k = Inr (Int64 n) \<and> \<not> accept c n" for k by blast
    from idle_laps [OF this, of s m] that assms(2) show "\<exists>s'.
        exec c (concat (replicate m lap)) s = Some s' \<and> done_closed s' \<and> idle s' \<and>
        calls s' = calls s + m"
      by auto
  qed
  from cn m bound ends gen proj worker fwd proj_range worker_range fwd_range closer rounds
  show ?thesis by blast
qed

theorem cancellation_tears_down_witness:
  "exec (sevens 0 1) cancel (init (sevens 0 1)) \<noteq> None \<and>
   done_closed (the (exec (sevens 0 1) cancel (init (sevens 0 1)))) \<and>
   panicked (the (exec (sevens 0 1) cancel (init (sevens 0 1)))) = None \<and>
   getValue (sevens 0 1) 0 = Inr (Int64 7) \<and>
   todo (the (exec (sevens 0 1) cancel (init (sevens 0 1)))) = 6 \<and>
   map_option finished
     (drain (sevens 0 1) (todo (the (exec (sevens 0 1) cancel (init (sevens 0 1)))))
        (the (exec (sevens 0 1) cancel (init (sevens 0 1))))) = Some True"
proof -
  let ?s = "the (exec (sevens 0 1) cancel (init (sevens 0 1)))"
  have run: "exec (sevens 0 1) cancel (init (sevens 0 1)) \<noteq> None"
    and dn: "done_closed ?s" and np: "panicked ?s = None"
    by (simp_all add: run_simps cancel_def)
  have td: "todo ?s = 6"
    by (simp add: run_simps cancel_def todo_def live_fwds_def)
  have src: "\<forall>k. \<exists>v. getValue (sevens 0 1) k = Inr v"
    and src0: "getValue (sevens 0 1) 0 = Inr (Int64 7)"
    by (simp_all add: sevens_def)
  from run have some: "exec (sevens 0 1) cancel (init (sevens 0 1)) = Some ?s" by simp
  from cancellation_tears_down [OF some dn np src]
  have "\<exists>s'. drain (sevens 0 1) (todo ?s) ?s = Some s' \<and> finished s'"
    by blast
  then have "map_option finished (drain (sevens 0 1) (todo ?s) ?s) = Some True"
    by auto
  with run dn np src0 td show ?thesis by blast
qed

text \<open>
  C5. When the worker count \<open>N\<close> is 0, the merged stream produced by \<open>reduceWorkers\<close> closes
  immediately (the completion counter starts satisfied), the Bounded Consumer never
  receives an item, and the pipeline does not deadlock.

  The merged stream closes at once and nothing is ever sent on it, but the consumer does
  not notice: its receive (line 66) has no \<open>ok\<close> test, unlike the \<open>range\<close> loops of the other
  stages, so each receive from the closed stream yields \<open>nil\<close>, which the consumer sends on
  as an item. With \<open>N = 0\<close> and \<open>K = 1\<close> the run below ends with \<open>main\<close> returned and one \<open>nil\<close>
  printed.
\<close>

theorem createResultStream_without_workers:
  "exec (sevens 1 0) no_workers (init (sevens 1 0)) \<noteq> None \<and>
   reducedStream_closed (the (exec (sevens 1 0) [CloserClose] (init (sevens 1 0)))) \<and>
   reducedStream_sent (the (exec (sevens 1 0) no_workers (init (sevens 1 0)))) = [] \<and>
   result_sent (the (exec (sevens 1 0) no_workers (init (sevens 1 0)))) = [NilValue] \<and>
   result_closed (the (exec (sevens 1 0) no_workers (init (sevens 1 0)))) \<and>
   main_pc (the (exec (sevens 1 0) no_workers (init (sevens 1 0)))) = MainReturned \<and>
   panicked (the (exec (sevens 1 0) no_workers (init (sevens 1 0)))) = None"
  by (simp add: run_simps no_workers_def)

text \<open>
  C6. The Generator stage calls the injected value source exactly once per produced item
  and only when a downstream consumer is ready to receive the value; the source is never
  called more than one step ahead of demand, and no generated value is discarded while the
  cancellation signal is open.

  The call is the operand of the send case (line 131), which is evaluated on entering the
  \<open>select\<close>, before any case is ready. After the first value has been handed over, the
  projection is in its own \<open>select\<close> and cannot receive; the generator calls the source all
  the same, and then holds a second value that nobody can take yet.
\<close>

theorem createValueStream_calls_early_counterexample:
  "exec (sevens 1 1) [GenCall, GenSend, GenCall] (init (sevens 1 1)) \<noteq> None \<and>
   proj_pc (the (exec (sevens 1 1) [GenCall, GenSend] (init (sevens 1 1)))) = ProjSelect 7 \<and>
   step (sevens 1 1) GenCall (the (exec (sevens 1 1) [GenCall, GenSend] (init (sevens 1 1))))
     \<noteq> None \<and>
   calls (the (exec (sevens 1 1) [GenCall, GenSend, GenCall] (init (sevens 1 1)))) = 2 \<and>
   valStream_sent (the (exec (sevens 1 1) [GenCall, GenSend, GenCall] (init (sevens 1 1))))
     = [Int64 7] \<and>
   step (sevens 1 1) GenSend
     (the (exec (sevens 1 1) [GenCall, GenSend, GenCall] (init (sevens 1 1)))) = None \<and>
   \<not> done_closed (the (exec (sevens 1 1) [GenCall, GenSend, GenCall] (init (sevens 1 1))))"
  by (simp add: run_simps)

text \<open>
  C6, amended. The Generator stage calls the injected value source once at the start of
  each iteration, whether or not a downstream consumer is ready. The items it has produced
  are the results of the calls, one call each, in order. The source is never more than one
  call ahead of what has been taken: the number of calls is the number of items taken
  while the generator is at the head of its loop, and one more while it holds a value in
  its \<open>select\<close> and after it has returned. The generator returns only when the cancellation
  signal is closed; while the signal is open, a value it holds is kept until it is taken.
\<close>

theorem createValueStream_calls:
  assumes "exec c sched (init c) = Some s"
  shows "map Inr (valStream_sent s) = map (getValue c) [0..<length (valStream_sent s)] \<and>
    calls s \<le> length (valStream_sent s) + 1 \<and>
    (gen_pc s = GenLoop \<and> panicked s = None \<longrightarrow>
       calls s = length (valStream_sent s) \<and> step c GenCall s \<noteq> None) \<and>
    (\<forall>v. gen_pc s = GenSelect v \<longrightarrow>
       calls s = length (valStream_sent s) + 1 \<and>
       getValue c (length (valStream_sent s)) = Inr v) \<and>
    (gen_pc s = GenReturned \<longrightarrow> done_closed s \<and> calls s = length (valStream_sent s) + 1) \<and>
    (\<forall>v a s'. gen_pc s = GenSelect v \<and> \<not> done_closed s \<and> step c a s = Some s' \<longrightarrow>
       gen_pc s' = GenSelect v \<and> valStream_sent s' = valStream_sent s \<or>
       valStream_sent s' = valStream_sent s @ [v])"
proof -
  from assms have i: "pipeline_inv c s" by (rule pipeline_inv_exec)
  then have wf: "well_formed c s" and al: "alive c s"
    and sent: "map Inr (valStream_sent s) = map (getValue c) [0..<length (valStream_sent s)]"
    and holds: "gen_holds (getValue c) (gen_pc s) (panicked s) (calls s)
      (length (valStream_sent s))"
    by (simp_all add: pipeline_inv_def generated_def)
  note w = well_formedD [OF wf]
  have ahead: "calls s \<le> length (valStream_sent s) + 1"
    using holds by (cases "gen_pc s") (auto split: if_splits)
  have head: "calls s = length (valStream_sent s) \<and> step c GenCall s \<noteq> None"
    if "gen_pc s = GenLoop \<and> panicked s = None"
    using that holds
    by (cases "getValue c (calls s)") (simp_all add: step_def gen_call_def die_def)
  have holding: "calls s = length (valStream_sent s) + 1 \<and>
      getValue c (length (valStream_sent s)) = Inr v"
    if "gen_pc s = GenSelect v" for v
    using that holds by simp
  have returned: "done_closed s \<and> calls s = length (valStream_sent s) + 1"
    if "gen_pc s = GenReturned"
  proof -
    from al that have "main_pc s \<noteq> MainRange" by (auto simp: alive_def)
    then have "done_closed s" by (cases "main_pc s") (simp_all add: w)
    with that holds show ?thesis by simp
  qed
  have kept: "gen_pc s' = GenSelect v \<and> valStream_sent s' = valStream_sent s \<or>
      valStream_sent s' = valStream_sent s @ [v]"
    if "gen_pc s = GenSelect v \<and> \<not> done_closed s \<and> step c a s = Some s'" for v a s'
  proof -
    from that have "transition c s a s'" by (simp add: step_transition)
    then show ?thesis using that by cases (simp_all add: w)
  qed
  from sent ahead head holding returned kept show ?thesis by blast
qed

theorem createValueStream_calls_witness:
  "exec (sevens 1 1) [GenCall, GenSend, GenCall] (init (sevens 1 1)) \<noteq> None \<and>
   gen_pc (the (exec (sevens 1 1) [GenCall, GenSend, GenCall] (init (sevens 1 1)))) =
     GenSelect (Int64 7) \<and>
   calls (the (exec (sevens 1 1) [GenCall, GenSend, GenCall] (init (sevens 1 1)))) =
     length (valStream_sent
       (the (exec (sevens 1 1) [GenCall, GenSend, GenCall] (init (sevens 1 1))))) + 1"
proof -
  have run: "exec (sevens 1 1) [GenCall, GenSend, GenCall] (init (sevens 1 1)) \<noteq> None"
    and g: "gen_pc (the (exec (sevens 1 1) [GenCall, GenSend, GenCall] (init (sevens 1 1)))) =
     GenSelect (Int64 7)"
    by (simp_all add: run_simps)
  from run have some: "exec (sevens 1 1) [GenCall, GenSend, GenCall] (init (sevens 1 1)) =
      Some (the (exec (sevens 1 1) [GenCall, GenSend, GenCall] (init (sevens 1 1))))"
    by simp
  from createValueStream_calls [OF some] g run show ?thesis by blast
qed

text \<open>
  C7. Triggering the Cancellation Signal more than once does not panic and does not
  double-close any stream: the signal-closing operation is a no-op, or disallowed by
  construction, after the first call.

  The program closes \<open>done\<close> in one place, the deferred call of \<open>main\<close> (line 32), and every
  stage holds the channel as receive-only. In every state the pipeline can reach:
  \<open>close(done)\<close> has run at most once, and once exactly when \<open>done\<close> is closed; no \<open>close\<close> of a
  closed channel has happened on any channel; and once \<open>done\<close> is closed the statement that
  closes it cannot run again.
\<close>

theorem done_closed_once:
  assumes "exec c sched (init c) = Some s"
  shows "done_closes s \<le> 1 \<and>
    (done_closed s \<longleftrightarrow> done_closes s = 1) \<and>
    panicked s \<noteq> Some CloseOfClosed \<and>
    (done_closed s \<longrightarrow> step c MainReturn s = None) \<and>
    (\<forall>a s'. done_closed s \<and> step c a s = Some s' \<longrightarrow> done_closed s' \<and> done_closes s' = 1)"
proof -
  from assms have wf: "well_formed c s" by (rule well_formed_exec)
  note w = well_formedD [OF wf]
  have once: "done_closes s \<le> 1" and iff: "done_closed s \<longleftrightarrow> done_closes s = 1"
    by (simp_all add: w)
  have off: "step c MainReturn s = None" if "done_closed s"
    using that by (simp add: step_def main_return_def w)
  have frame: "done_closed s' \<and> done_closes s' = 1"
    if "done_closed s" "step c a s = Some s'" for a s'
  proof -
    from that(1) have ret: "main_pc s = MainReturned" by (simp add: w)
    from that(2) have "transition c s a s'" by (rule step_transition)
    then show ?thesis using ret by cases (simp_all add: w)
  qed
  from once iff w(17) off frame show ?thesis by blast
qed

theorem done_closed_once_witness:
  "exec (sevens 0 1) torn_down (init (sevens 0 1)) \<noteq> None \<and>
   done_closed (the (exec (sevens 0 1) torn_down (init (sevens 0 1)))) \<and>
   done_closes (the (exec (sevens 0 1) torn_down (init (sevens 0 1)))) = 1 \<and>
   step (sevens 0 1) MainReturn (the (exec (sevens 0 1) torn_down (init (sevens 0 1)))) = None"
proof -
  have run: "exec (sevens 0 1) torn_down (init (sevens 0 1)) \<noteq> None"
    and closed: "done_closed (the (exec (sevens 0 1) torn_down (init (sevens 0 1))))"
    by (simp_all add: run_simps torn_down_def)
  from run have some: "exec (sevens 0 1) torn_down (init (sevens 0 1)) =
      Some (the (exec (sevens 0 1) torn_down (init (sevens 0 1))))"
    by simp
  from done_closed_once [OF some] closed run show ?thesis by blast
qed



text \<open>
  C9. With \<open>K = 5\<close>, range 100 and \<open>N = 1\<close> the consumer receives 5 distinct integers, each in
  \<open>[0, 100)\<close> (every value the source returns for \<open>r\<close> lies in \<open>[0, r)\<close>), each prime by an
  independent check, in the order the single worker emitted them; the flag defaults are
  \<open>p = 10\<close>, \<open>r = 100000\<close>, \<open>n = 8\<close>.

  Nothing in the pipeline removes repeated values, and \<open>rand.Int63n\<close> may return the same
  number again: when every draw is 107, the source returns 7 each time and the consumer
  receives 7 five times.
\<close>

theorem scenario_a_repeats_counterexample:
  "exec (main_config (\<lambda>k. 107) 5 100 1) five_items (init (main_config (\<lambda>k. 107) 5 100 1)) \<noteq> None \<and>
   result_closed
     (the (exec (main_config (\<lambda>k. 107) 5 100 1) five_items
        (init (main_config (\<lambda>k. 107) 5 100 1)))) \<and>
   result_sent
     (the (exec (main_config (\<lambda>k. 107) 5 100 1) five_items
        (init (main_config (\<lambda>k. 107) 5 100 1)))) =
     [Int64 7, Int64 7, Int64 7, Int64 7, Int64 7] \<and>
   \<not> distinct (result_sent
     (the (exec (main_config (\<lambda>k. 107) 5 100 1) five_items
        (init (main_config (\<lambda>k. 107) 5 100 1)))))"
  by (simp add: main_config_def five_items_def randVal_107 run_simps)

text \<open>
  C9, amended. With \<open>K = 5\<close>, range 100 and \<open>N = 1\<close> the consumer receives at most 5 integers,
  and exactly 5 by the time its output is closed; they need not be distinct; each lies in
  \<open>[0, 100)\<close> and is prime by trial division; they arrive in the order the single worker
  emitted them. Every value \<open>randVal\<close> returns for a positive \<open>r\<close> lies in \<open>[0, r)\<close>. The flag
  defaults are \<open>p = 10\<close>, \<open>r = 100000\<close>, \<open>n = 8\<close>.
\<close>

theorem scenario_a:
  assumes "exec (main_config draws 5 100 1) sched (init (main_config draws 5 100 1)) = Some s"
  shows "length (result_sent s) \<le> 5 \<and>
    (result_closed s \<longrightarrow> length (result_sent s) = 5) \<and>
    (\<forall>v\<in>set (result_sent s).
       \<exists>n. v = Int64 n \<and> 0 \<le> sint n \<and> sint n < 100 \<and> is_prime (nat (sint n))) \<and>
    prefix (result_sent s) (map Int64 (primeNumStream_sent s ! 0)) \<and>
    (\<forall>r raw v. 0 < sint r \<and> randVal r raw = Inr v \<longrightarrow>
       (\<exists>n. v = Int64 n \<and> 0 \<le> sint n \<and> sint n < sint r)) \<and>
    DEFAULT_NUM_PRIMES = 10 \<and> DEFAULT_NUM_RANGE = 100000 \<and> DEFAULT_NUM_WORKERS = 8"
proof -
  let ?c = "main_config draws 5 100 1"
  have k: "(0::int) \<le> numPrimes ?c" and n: "numWorkers ?c = 1"
    by (simp_all add: main_config_def)
  from assms have i: "pipeline_inv ?c s" by (rule pipeline_inv_exec)
  from consumer_count [OF i k]
  have count: "length (result_sent s) \<le> 5" "result_closed s \<longrightarrow> length (result_sent s) = 5"
    by (simp_all add: main_config_def)
  have items: "\<exists>m. v = Int64 m \<and> 0 \<le> sint m \<and> sint m < 100 \<and> is_prime (nat (sint m))"
    if "v \<in> set (result_sent s)" for v
  proof -
    from result_items_merged [OF i that] n have "v \<in> set (reducedStream_sent s)" by simp
    from merged_items_sourced [OF i this] obtain m j
      where m: "v = Int64 m" "ProbablyPrime0 m" "randVal 100 (draws j) = Inr (Int64 m)"
      by (auto simp: main_config_def)
    have "(0::int) < sint (100 :: int64)" by simp
    from randVal_range [OF this m(3)] have "0 \<le> sint m" "sint m < 100" by simp_all
    with m show ?thesis by (simp add: ProbablyPrime0_def)
  qed
  have order: "prefix (result_sent s) (map Int64 (primeNumStream_sent s ! 0))"
    using result_prefix_merged [OF i] merged_prefix_worker [OF i n] n
    by (simp add: prefix_order.order_trans)
  have range: "\<exists>m. v = Int64 m \<and> 0 \<le> sint m \<and> sint m < sint r"
    if "0 < sint r \<and> randVal r raw = Inr v" for r raw v
    using that randVal_range by blast
  have flags: "DEFAULT_NUM_PRIMES = 10" "DEFAULT_NUM_RANGE = 100000" "DEFAULT_NUM_WORKERS = 8"
    by (simp_all add: DEFAULT_NUM_PRIMES_def DEFAULT_NUM_RANGE_def DEFAULT_NUM_WORKERS_def)
  from count items order range flags show ?thesis by blast
qed

theorem scenario_a_witness:
  "exec (main_config (\<lambda>k. 107) 5 100 1) (one_item @ one_item)
     (init (main_config (\<lambda>k. 107) 5 100 1)) \<noteq> None \<and>
   result_sent
     (the (exec (main_config (\<lambda>k. 107) 5 100 1) (one_item @ one_item)
        (init (main_config (\<lambda>k. 107) 5 100 1)))) = [Int64 7, Int64 7] \<and>
   prefix
     (result_sent
       (the (exec (main_config (\<lambda>k. 107) 5 100 1) (one_item @ one_item)
          (init (main_config (\<lambda>k. 107) 5 100 1)))))
     (map Int64 (primeNumStream_sent
       (the (exec (main_config (\<lambda>k. 107) 5 100 1) (one_item @ one_item)
          (init (main_config (\<lambda>k. 107) 5 100 1)))) ! 0)) \<and>
   is_prime 7"
proof -
  let ?c = "main_config (\<lambda>k. 107) 5 100 1"
  have run: "exec ?c (one_item @ one_item) (init ?c) \<noteq> None"
    and sent: "result_sent (the (exec ?c (one_item @ one_item) (init ?c))) = [Int64 7, Int64 7]"
    by (simp_all add: main_config_def randVal_107 run_simps)
  from run have some: "exec ?c (one_item @ one_item) (init ?c) =
      Some (the (exec ?c (one_item @ one_item) (init ?c)))"
    by simp
  from scenario_a [OF some] sent
  have "prefix (result_sent (the (exec ?c (one_item @ one_item) (init ?c))))
      (map Int64 (primeNumStream_sent (the (exec ?c (one_item @ one_item) (init ?c))) ! 0))"
    and "\<exists>n. Int64 7 = Int64 n \<and> 0 \<le> sint n \<and> sint n < 100 \<and> is_prime (nat (sint n))"
    by simp_all
  then show ?thesis using run sent by simp
qed




end
